theory Spec2Isabelle
  imports Complex_Main "HOL-Library.Sublist"
begin

section \<open>Values, errors and arguments\<close>

text \<open>
  The Python values that reach \<open>knockout_values\<close>: \<open>None\<close>, integers, floats (finite ones
  as exact rationals, and NaN) and strings. They serve as table cells, as sentinels and as
  the missing-rate values. Floating-point rounding of the product \<open>n_rows*pct\<close> is outside
  the model: the product is the exact rational. Infinities, booleans and other objects
  are outside it too.
\<close>

datatype pyval = PNone | PInt int | PFloat rat | PNaN | PStr string

text \<open>
  The exceptions the function can raise. \<open>AssertionError\<close> is what a failed \<open>assert\<close>
  raises (the specification's InvalidArgument); the others come from the operations the
  code applies to values it did not validate.
\<close>

datatype error = AssertionError | TypeError | ValueError | KeyError

text \<open>
  \<open>missing_pct\<close> and \<open>na_value\<close> are either a plain value or a dict. A dict is the list of
  its items in iteration order.
\<close>

datatype arg = Val pyval | Dict "(string \<times> pyval) list"

text \<open>\<open>exclude\<close> is \<open>None\<close>, one column name, or a collection of names.\<close>

datatype exclude_arg = ExNone | ExStr string | ExList "string list"

text \<open>
  A DataFrame: the row count (\<open>shape[0]\<close>), the ordered column labels, the dtype name of
  every column (\<open>str(dtype)\<close>, such as \<open>int64\<close>, \<open>float64\<close>, \<open>object\<close>) and the data of
  every column. In a \<open>pyval list frame\<close> the data of a column are its cells, by position
  (rows are addressed by position, the default index); in a \<open>nat frame\<close> they are the
  address of the array that holds the cells.
\<close>

record 'a frame =
  n_rows :: nat
  columns :: "string list"
  dtypes :: "string \<rightharpoonup> string"
  series :: "string \<rightharpoonup> 'a"

section \<open>The helper lambdas (lines 24 to 29)\<close>

definition float_type :: "string \<Rightarrow> bool" where
  "float_type x \<longleftrightarrow> prefix ''float'' x \<or> prefix ''int'' x"

definition int_type :: "string \<Rightarrow> bool" where
  "int_type x \<longleftrightarrow> prefix ''int'' x"

text \<open>
  \<open>float_like\<close> accepts every number, and every value whose \<open>str\<close> starts with \<open>float\<close> or
  \<open>int\<close>; among the values of the model those are the strings with such a prefix
  (\<open>str(None)\<close> is \<open>None\<close>, and the \<open>str\<close> of a number starts with a digit or a sign, or is
  \<open>nan\<close> or \<open>inf\<close>).
\<close>

fun float_like :: "pyval \<Rightarrow> bool" where
  "float_like (PInt i) = True"
| "float_like (PFloat r) = True"
| "float_like PNaN = True"
| "float_like (PStr s) = (prefix ''float'' s \<or> prefix ''int'' s)"
| "float_like PNone = False"

definition default_na :: "string \<Rightarrow> pyval" where
  "default_na x = (if int_type x then PInt (- 1) else if float_type x then PNaN else PStr ''NA'')"

text \<open>
  \<open>is_pct x\<close> is \<open>x >= 0.0 and x <= 1.0\<close>: every comparison with NaN is false, and
  comparing a string or \<open>None\<close> with a float raises TypeError.
\<close>

fun is_pct :: "pyval \<Rightarrow> error + bool" where
  "is_pct (PInt i) = Inr (0 \<le> i \<and> i \<le> 1)"
| "is_pct (PFloat r) = Inr (0 \<le> r \<and> r \<le> 1)"
| "is_pct PNaN = Inr False"
| "is_pct (PStr s) = Inl TypeError"
| "is_pct PNone = Inl TypeError"

text \<open>
  \<open>float(x)\<close>. The code applies it to \<open>float_like\<close> values only; no string that starts
  with \<open>float\<close> or \<open>int\<close> is a float literal, so on a string it raises ValueError.
\<close>

fun py_float :: "pyval \<Rightarrow> error + pyval" where
  "py_float (PInt i) = Inr (PFloat (of_int i))"
| "py_float (PFloat r) = Inr (PFloat r)"
| "py_float PNaN = Inr PNaN"
| "py_float (PStr s) = Inl ValueError"
| "py_float PNone = Inl TypeError"

section \<open>Resolving the arguments (lines 30 to 52)\<close>

text \<open>Line 32: the set of excluded column names.\<close>

fun exclude_set :: "exclude_arg \<Rightarrow> string set" where
  "exclude_set ExNone = {}"
| "exclude_set (ExStr s) = {s}"
| "exclude_set (ExList cs) = set cs"

text \<open>
  Lines 34 to 39: the sentinel of every column. The dict \<open>_na_value\<close> is keyed by column
  name, and an entry of a dict-valued \<open>na_value\<close> replaces the default of the column whose
  \<^emph>\<open>name\<close> is its key.
\<close>

definition na_values :: "'a frame \<Rightarrow> arg \<Rightarrow> (string \<rightharpoonup> pyval)" where
  "na_values df na_value =
     (let types = dtypes df;
          na0 = (\<lambda>c. if c \<in> set (columns df) then map_option default_na (types c) else None)
      in case na_value of
           Dict d \<Rightarrow> (\<lambda>c. case na0 c of
                              None \<Rightarrow> None
                            | Some v0 \<Rightarrow> (case map_of d c of Some v \<Rightarrow> Some v | None \<Rightarrow> Some v0))
         | Val v \<Rightarrow> na0)"

text \<open>
  Lines 47 to 51: the loop over the items of a dict-valued \<open>missing_pct\<close>. Every entry is
  stored; a \<open>float_like\<close> one is converted with \<open>float\<close> and then asserted to be in
  \<open>[0,1]\<close>.
\<close>

fun missing_pct_items :: "(string \<times> pyval) list \<Rightarrow> (string \<rightharpoonup> pyval) \<Rightarrow> error + (string \<rightharpoonup> pyval)" where
  "missing_pct_items [] m = Inr m"
| "missing_pct_items ((c, v) # rest) m =
     (if float_like v then
        (case py_float v of
           Inl e \<Rightarrow> Inl e
         | Inr f \<Rightarrow>
             (case is_pct f of
                Inl e \<Rightarrow> Inl e
              | Inr ok \<Rightarrow>
                  (if ok then missing_pct_items rest (m(c \<mapsto> f)) else Inl AssertionError)))
      else missing_pct_items rest (m(c \<mapsto> v)))"

text \<open>Lines 41 to 52: the missing rate of every column.\<close>

definition resolve_missing_pct :: "'a frame \<Rightarrow> arg \<Rightarrow> error + (string \<rightharpoonup> pyval)" where
  "resolve_missing_pct df missing_pct =
     (let m0 = (\<lambda>c. if c \<in> set (columns df) then Some PNone else None)
      in case missing_pct of
           Val v \<Rightarrow>
             (if float_like v then
                (case is_pct v of
                   Inl e \<Rightarrow> Inl e
                 | Inr ok \<Rightarrow>
                     (if ok then
                        (case py_float v of
                           Inl e \<Rightarrow> Inl e
                         | Inr f \<Rightarrow> Inr (\<lambda>c. if c \<in> set (columns df) then Some f else None))
                      else Inl AssertionError))
              else Inr m0)
         | Dict d \<Rightarrow> missing_pct_items d m0)"

section \<open>Sampling and masking (lines 54 to 64)\<close>

text \<open>\<open>np.round\<close> rounds to the nearest integer, a tie to the even neighbour.\<close>

definition np_round :: "rat \<Rightarrow> int" where
  "np_round x =
     (let f = \<lfloor>x\<rfloor>; d = x - of_int f
      in if d < 1 / 2 then f else if 1 / 2 < d then f + 1 else if even f then f else f + 1)"

text \<open>
  \<open>int(np.round(n_rows*pct))\<close>. An int times a string is a string, which \<open>np.round\<close>
  rejects with TypeError; \<open>int\<close> of NaN raises ValueError.
\<close>

fun n_knockout :: "nat \<Rightarrow> pyval \<Rightarrow> error + int" where
  "n_knockout n (PFloat r) = Inr (np_round (of_nat n * r))"
| "n_knockout n (PInt i) = Inr (int n * i)"
| "n_knockout n PNaN = Inl ValueError"
| "n_knockout n (PStr s) = Inl TypeError"
| "n_knockout n PNone = Inl TypeError"

text \<open>
  \<open>np.random.choice(n, k, replace=False)\<close> is a library call on the process-wide
  generator: it is a parameter \<open>choice\<close> of the model, taking the generator state, \<open>n\<close> and
  \<open>k\<close> and returning the drawn positions and the next state. A negative \<open>k\<close> or a \<open>k\<close> above
  \<open>n\<close> raises ValueError.
\<close>

definition random_choice ::
  "('g \<Rightarrow> nat \<Rightarrow> nat \<Rightarrow> nat list \<times> 'g) \<Rightarrow> 'g \<Rightarrow> nat \<Rightarrow> int \<Rightarrow> (error + nat list) \<times> 'g" where
  "random_choice choice g n k =
     (if k < 0 \<or> int n < k then (Inl ValueError, g)
      else case choice g n (nat k) of (idx, g') \<Rightarrow> (Inr idx, g'))"


text \<open>
  \<open>mask[c][mask_idx] = True\<close>: the positions of \<open>mask_idx\<close> are set one after the other.
  The contract of \<open>choice\<close> keeps every position in range; a position out of range, where
  pandas would raise, leaves the list as it is.
\<close>

definition set_true :: "nat list \<Rightarrow> bool list \<Rightarrow> bool list" where
  "set_true mask_idx m = fold (\<lambda>i xs. xs[i := True]) mask_idx m"

text \<open>\<open>s.where(cond, other=v)\<close> keeps a cell where \<open>cond\<close> holds and puts \<open>v\<close> elsewhere.\<close>

definition py_where :: "'a list \<Rightarrow> bool list \<Rightarrow> 'a \<Rightarrow> 'a list" where
  "py_where s cond other = map (\<lambda>(x, keep). if keep then x else other) (zip s cond)"

text \<open>Line 55: the mask starts all False, with the columns of \<open>df\<close>.\<close>

definition zeros_mask :: "'a frame \<Rightarrow> bool list frame" where
  "zeros_mask df =
     \<lparr> n_rows = n_rows df, columns = columns df,
       dtypes = (\<lambda>c. if c \<in> set (columns df) then Some ''bool'' else None),
       series = (\<lambda>c. if c \<in> set (columns df) then Some (replicate (n_rows df) False) else None) \<rparr>"

text \<open>
  Lines 58 to 64: the body of the loop for one column \<open>c\<close>, on the working copy, the mask
  and the generator state. A lookup of a missing key raises KeyError. The dtype names of
  the working copy stay the input's: the dtype that \<open>where\<close> gives a column is outside the
  model, which is about the cells.
\<close>

definition knockout_column ::
  "('g \<Rightarrow> nat \<Rightarrow> nat \<Rightarrow> nat list \<times> 'g) \<Rightarrow> string set \<Rightarrow> (string \<rightharpoonup> pyval) \<Rightarrow> (string \<rightharpoonup> pyval) \<Rightarrow>
   string \<Rightarrow> pyval list frame \<times> bool list frame \<times> 'g \<Rightarrow> (error + pyval list frame \<times> bool list frame) \<times> 'g" where
  "knockout_column choice exclude missing_pct na_value c st =
     (case st of (masked_df, mask_df, g) \<Rightarrow>
        (if c \<in> exclude then (Inr (masked_df, mask_df), g)
         else
           (case missing_pct c of
              None \<Rightarrow> (Inl KeyError, g)
            | Some pct \<Rightarrow>
                (if pct = PNone then (Inr (masked_df, mask_df), g)
                 else
                   (case n_knockout (n_rows masked_df) pct of
                      Inl e \<Rightarrow> (Inl e, g)
                    | Inr k \<Rightarrow>
                        (case random_choice choice g (n_rows masked_df) k of
                           (Inl e, g') \<Rightarrow> (Inl e, g')
                         | (Inr mask_idx, g') \<Rightarrow>
                             (case (series mask_df c, series masked_df c, na_value c) of
                                (Some m, Some s, Some v) \<Rightarrow>
                                  (let m' = set_true mask_idx m;
                                       mask_df' = mask_df\<lparr>series := (series mask_df)(c \<mapsto> m')\<rparr>;
                                       masked_df' = masked_df\<lparr>series :=
                                         (series masked_df)(c \<mapsto> py_where s (map Not m') v)\<rparr>
                                   in (Inr (masked_df', mask_df'), g'))
                              | _ \<Rightarrow> (Inl KeyError, g'))))))))"

text \<open>Line 57: the loop over the columns; an exception ends it.\<close>

fun knockout_loop ::
  "('g \<Rightarrow> nat \<Rightarrow> nat \<Rightarrow> nat list \<times> 'g) \<Rightarrow> string set \<Rightarrow> (string \<rightharpoonup> pyval) \<Rightarrow> (string \<rightharpoonup> pyval) \<Rightarrow>
   string list \<Rightarrow> pyval list frame \<times> bool list frame \<times> 'g \<Rightarrow> (error + pyval list frame \<times> bool list frame) \<times> 'g" where
  "knockout_loop choice exclude missing_pct na_value [] st =
     (case st of (masked_df, mask_df, g) \<Rightarrow> (Inr (masked_df, mask_df), g))"
| "knockout_loop choice exclude missing_pct na_value (c # cs) st =
     (case knockout_column choice exclude missing_pct na_value c st of
        (Inl e, g') \<Rightarrow> (Inl e, g')
      | (Inr (masked_df', mask_df'), g') \<Rightarrow>
          knockout_loop choice exclude missing_pct na_value cs (masked_df', mask_df', g'))"

section \<open>The function\<close>

text \<open>
  \<open>knockout_values(df, missing_pct, na_value, exclude)\<close>, with the generator state before
  and after the call. The result is the raised exception, or the pair of the masked copy
  and the mask.
\<close>

definition knockout_values ::
  "('g \<Rightarrow> nat \<Rightarrow> nat \<Rightarrow> nat list \<times> 'g) \<Rightarrow> pyval list frame \<Rightarrow> arg \<Rightarrow> arg \<Rightarrow> exclude_arg \<Rightarrow> 'g \<Rightarrow>
   (error + pyval list frame \<times> bool list frame) \<times> 'g" where
  "knockout_values choice df missing_pct na_value exclude g =
     (if \<not> (missing_pct = Val PNone \<or> (case missing_pct of Val v \<Rightarrow> float_like v | Dict d \<Rightarrow> True))
      then (Inl AssertionError, g)
      else
        (case resolve_missing_pct df missing_pct of
           Inl e \<Rightarrow> (Inl e, g)
         | Inr rates \<Rightarrow>
             knockout_loop choice (exclude_set exclude) rates (na_values df na_value)
               (columns df) (df, zeros_mask df, g)))"

section \<open>The function on a store\<close>

text \<open>
  Whether the call mutates its input is a matter of which arrays the DataFrames share.
  Here the cells live in a store of arrays, and a DataFrame (a \<open>nat frame\<close>) holds for
  every column the address of its array. An array holds cells or mask flags.
\<close>

datatype array = Values "pyval list" | Flags "bool list"

text \<open>The store: the allocated arrays, and the next address that is free.\<close>

record store =
  arrays :: "nat \<rightharpoonup> array"
  fresh :: nat

text \<open>A new array gets the next free address.\<close>

definition alloc :: "array \<Rightarrow> store \<Rightarrow> nat \<times> store" where
  "alloc x h = (fresh h, \<lparr> arrays = (arrays h)(fresh h \<mapsto> x), fresh = Suc (fresh h) \<rparr>)"

text \<open>Overwriting the array at an address, as an assignment into it does.\<close>

definition store_write :: "nat \<Rightarrow> array \<Rightarrow> store \<Rightarrow> store" where
  "store_write a x h = h\<lparr>arrays := (arrays h)(a \<mapsto> x)\<rparr>"

text \<open>
  Line 54, \<open>df.copy()\<close>: a deep copy. Every column's array is copied into a new array,
  and the copy refers to the new arrays.
\<close>

fun copy_arrays :: "string list \<Rightarrow> (string \<rightharpoonup> nat) \<Rightarrow> (string \<rightharpoonup> nat) \<times> store \<Rightarrow> (string \<rightharpoonup> nat) \<times> store" where
  "copy_arrays [] src st = st"
| "copy_arrays (c # cs) src st =
     (case st of (dst, h) \<Rightarrow>
        (case src c of
           None \<Rightarrow> copy_arrays cs src (dst, h)
         | Some a \<Rightarrow>
             (case arrays h a of
                None \<Rightarrow> copy_arrays cs src (dst, h)
              | Some x \<Rightarrow> (case alloc x h of (a', h') \<Rightarrow> copy_arrays cs src (dst(c \<mapsto> a'), h')))))"

definition copy_frame :: "nat frame \<Rightarrow> store \<Rightarrow> nat frame \<times> store" where
  "copy_frame df h =
     (case copy_arrays (columns df) (series df) (Map.empty, h) of
        (dst, h') \<Rightarrow> (df\<lparr>series := dst\<rparr>, h'))"

text \<open>
  Line 55: \<open>np.zeros_like(df.values, dtype=bool)\<close> is a new array; every column of it is
  one array of the store, all False.
\<close>

fun zeros_arrays :: "string list \<Rightarrow> nat \<Rightarrow> (string \<rightharpoonup> nat) \<times> store \<Rightarrow> (string \<rightharpoonup> nat) \<times> store" where
  "zeros_arrays [] n st = st"
| "zeros_arrays (c # cs) n st =
     (case st of (dst, h) \<Rightarrow>
        (case alloc (Flags (replicate n False)) h of
           (a, h') \<Rightarrow> zeros_arrays cs n (dst(c \<mapsto> a), h')))"

definition zeros_mask_store :: "nat frame \<Rightarrow> store \<Rightarrow> nat frame \<times> store" where
  "zeros_mask_store df h =
     (case zeros_arrays (columns df) (n_rows df) (Map.empty, h) of
        (dst, h') \<Rightarrow>
          (\<lparr> n_rows = n_rows df, columns = columns df,
             dtypes = (\<lambda>c. if c \<in> set (columns df) then Some ''bool'' else None),
             series = dst \<rparr>, h'))"

text \<open>
  Lines 58 to 64 on the store. \<open>mask[c][mask_idx] = True\<close> writes into the array of the
  mask's column. \<open>masked_df[c].where(...)\<close> builds a new Series, so a new array, and the
  assignment \<open>masked_df[c] = ...\<close> makes the column of \<open>masked_df\<close> refer to it. A column
  without an array of the expected kind counts as a missing key.
\<close>

definition knockout_column_store ::
  "('g \<Rightarrow> nat \<Rightarrow> nat \<Rightarrow> nat list \<times> 'g) \<Rightarrow> string set \<Rightarrow> (string \<rightharpoonup> pyval) \<Rightarrow> (string \<rightharpoonup> pyval) \<Rightarrow>
   string \<Rightarrow> nat frame \<times> nat frame \<times> store \<times> 'g \<Rightarrow> (error + nat frame \<times> nat frame) \<times> store \<times> 'g" where
  "knockout_column_store choice exclude missing_pct na_value c st =
     (case st of (masked_df, mask_df, h, g) \<Rightarrow>
        (if c \<in> exclude then (Inr (masked_df, mask_df), h, g)
         else
           (case missing_pct c of
              None \<Rightarrow> (Inl KeyError, h, g)
            | Some pct \<Rightarrow>
                (if pct = PNone then (Inr (masked_df, mask_df), h, g)
                 else
                   (case n_knockout (n_rows masked_df) pct of
                      Inl e \<Rightarrow> (Inl e, h, g)
                    | Inr k \<Rightarrow>
                        (case random_choice choice g (n_rows masked_df) k of
                           (Inl e, g') \<Rightarrow> (Inl e, h, g')
                         | (Inr mask_idx, g') \<Rightarrow>
                             (case (series mask_df c, series masked_df c, na_value c) of
                                (Some am, Some av, Some v) \<Rightarrow>
                                  (case (arrays h am, arrays h av) of
                                     (Some (Flags m), Some (Values s)) \<Rightarrow>
                                       (let m' = set_true mask_idx m;
                                            h1 = store_write am (Flags m') h
                                        in case alloc (Values (py_where s (map Not m') v)) h1 of
                                             (a', h2) \<Rightarrow>
                                               (Inr (masked_df\<lparr>series := (series masked_df)(c \<mapsto> a')\<rparr>,
                                                     mask_df), h2, g'))
                                   | _ \<Rightarrow> (Inl KeyError, h, g'))
                              | _ \<Rightarrow> (Inl KeyError, h, g'))))))))"

fun knockout_loop_store ::
  "('g \<Rightarrow> nat \<Rightarrow> nat \<Rightarrow> nat list \<times> 'g) \<Rightarrow> string set \<Rightarrow> (string \<rightharpoonup> pyval) \<Rightarrow> (string \<rightharpoonup> pyval) \<Rightarrow>
   string list \<Rightarrow> nat frame \<times> nat frame \<times> store \<times> 'g \<Rightarrow> (error + nat frame \<times> nat frame) \<times> store \<times> 'g" where
  "knockout_loop_store choice exclude missing_pct na_value [] st =
     (case st of (masked_df, mask_df, h, g) \<Rightarrow> (Inr (masked_df, mask_df), h, g))"
| "knockout_loop_store choice exclude missing_pct na_value (c # cs) st =
     (case knockout_column_store choice exclude missing_pct na_value c st of
        (Inl e, h', g') \<Rightarrow> (Inl e, h', g')
      | (Inr (masked_df', mask_df'), h', g') \<Rightarrow>
          knockout_loop_store choice exclude missing_pct na_value cs (masked_df', mask_df', h', g'))"

text \<open>
  The function on the store: validation as before, then the copy, the mask and the loop.
\<close>

definition knockout_values_store ::
  "('g \<Rightarrow> nat \<Rightarrow> nat \<Rightarrow> nat list \<times> 'g) \<Rightarrow> nat frame \<Rightarrow> arg \<Rightarrow> arg \<Rightarrow> exclude_arg \<Rightarrow> store \<times> 'g \<Rightarrow>
   (error + nat frame \<times> nat frame) \<times> store \<times> 'g" where
  "knockout_values_store choice df missing_pct na_value exclude st =
     (case st of (h, g) \<Rightarrow>
        (if \<not> (missing_pct = Val PNone \<or> (case missing_pct of Val v \<Rightarrow> float_like v | Dict d \<Rightarrow> True))
         then (Inl AssertionError, h, g)
         else
           (case resolve_missing_pct df missing_pct of
              Inl e \<Rightarrow> (Inl e, h, g)
            | Inr rates \<Rightarrow>
                (case copy_frame df h of
                   (masked_df, h1) \<Rightarrow>
                     (case zeros_mask_store df h1 of
                        (mask_df, h2) \<Rightarrow>
                          knockout_loop_store choice (exclude_set exclude) rates
                            (na_values df na_value) (columns df) (masked_df, mask_df, h2, g))))))"

text \<open>Every address held by a frame is at least \<open>b\<close>.\<close>

definition above :: "nat \<Rightarrow> (string \<rightharpoonup> nat) \<Rightarrow> bool" where
  "above b m \<longleftrightarrow> (\<forall>c a. m c = Some a \<longrightarrow> b \<le> a)"

text \<open>The store only grew, and the arrays below \<open>b\<close> are what they were.\<close>

definition kept :: "nat \<Rightarrow> store \<Rightarrow> store \<Rightarrow> bool" where
  "kept b h h' \<longleftrightarrow> fresh h \<le> fresh h' \<and> (\<forall>a < b. arrays h' a = arrays h a)"

text \<open>Reading a store: the cells, or the flags, of the array a column refers to.\<close>

definition values_at :: "store \<Rightarrow> nat option \<Rightarrow> pyval list option" where
  "values_at h ao =
     (case ao of None \<Rightarrow> None
      | Some a \<Rightarrow> (case arrays h a of Some (Values s) \<Rightarrow> Some s | _ \<Rightarrow> None))"

definition flags_at :: "store \<Rightarrow> nat option \<Rightarrow> bool list option" where
  "flags_at h ao =
     (case ao of None \<Rightarrow> None
      | Some a \<Rightarrow> (case arrays h a of Some (Flags m) \<Rightarrow> Some m | _ \<Rightarrow> None))"

text \<open>The table of values that a frame of addresses stands for in a store.\<close>

definition read_values :: "store \<Rightarrow> nat frame \<Rightarrow> pyval list frame" where
  "read_values h fr =
     \<lparr> n_rows = n_rows fr, columns = columns fr, dtypes = dtypes fr,
       series = (\<lambda>c. values_at h (series fr c)) \<rparr>"

text \<open>
  What the loop body decides for a column before it touches any data: to skip it, to
  raise, or to knock out the drawn positions. Both forms of the loop body decide alike.
\<close>

datatype 'g decision = Skip | Fail error 'g | Draw "nat list" 'g

definition decide ::
  "('g \<Rightarrow> nat \<Rightarrow> nat \<Rightarrow> nat list \<times> 'g) \<Rightarrow> string set \<Rightarrow> (string \<rightharpoonup> pyval) \<Rightarrow> nat \<Rightarrow> string \<Rightarrow> 'g \<Rightarrow> 'g decision" where
  "decide choice ex mp n c g =
     (if c \<in> ex then Skip
      else
        (case mp c of
           None \<Rightarrow> Fail KeyError g
         | Some pct \<Rightarrow>
             (if pct = PNone then Skip
              else
                (case n_knockout n pct of
                   Inl e \<Rightarrow> Fail e g
                 | Inr k \<Rightarrow>
                     (case random_choice choice g n k of
                        (Inl e, g') \<Rightarrow> Fail e g'
                      | (Inr idx, g') \<Rightarrow> Draw idx g')))))"

text \<open>
  The working state on the store stands for the working state on values: over the columns
  \<open>C\<close> the arrays hold the cells and flags, every address is allocated, and no array of
  the mask is shared with another column.
\<close>

definition sim ::
  "string set \<Rightarrow> store \<Rightarrow> nat frame \<Rightarrow> nat frame \<Rightarrow> pyval list frame \<Rightarrow> bool list frame \<Rightarrow> bool" where
  "sim C h rv rm mdf mk \<longleftrightarrow>
     n_rows mdf = n_rows rv \<and>
     (\<forall>c \<in> C. series mdf c = values_at h (series rv c) \<and> series mk c = flags_at h (series rm c)) \<and>
     (\<forall>c \<in> C. \<forall>a. series rv c = Some a \<or> series rm c = Some a \<longrightarrow> a < fresh h) \<and>
     (\<forall>c \<in> C. \<forall>c' \<in> C. \<forall>a. series rm c = Some a \<longrightarrow>
        (series rm c' = Some a \<longrightarrow> c' = c) \<and> series rv c' \<noteq> Some a)"

section \<open>Well-formed inputs and the specification's vocabulary\<close>

text \<open>
  A table as the function expects it: no column label twice, and every column has a dtype
  and \<open>n_rows\<close> cells.
\<close>

definition wf_frame :: "'a list frame \<Rightarrow> bool" where
  "wf_frame df \<longleftrightarrow>
     distinct (columns df) \<and>
     (\<forall>c \<in> set (columns df).
        dtypes df c \<noteq> None \<and> (case series df c of None \<Rightarrow> False | Some s \<Rightarrow> length s = n_rows df))"

text \<open>The number a rate value stands for; \<open>None\<close> for an absent or non-numeric value.\<close>

fun rate_of :: "pyval \<Rightarrow> rat option" where
  "rate_of (PInt i) = Some (of_int i)"
| "rate_of (PFloat r) = Some r"
| "rate_of v = None"

text \<open>
  The specification's valid missing-rate configuration: absent, a number in \<open>[0,1]\<close>, or a
  mapping (a dict, so no key twice) whose values are absent or numbers in \<open>[0,1]\<close>.
\<close>

fun valid_rate :: "pyval \<Rightarrow> bool" where
  "valid_rate PNone = True"
| "valid_rate (PInt i) = (0 \<le> i \<and> i \<le> 1)"
| "valid_rate (PFloat r) = (0 \<le> r \<and> r \<le> 1)"
| "valid_rate v = False"

fun valid_missing_pct :: "arg \<Rightarrow> bool" where
  "valid_missing_pct (Val v) = valid_rate v"
| "valid_missing_pct (Dict d) = (distinct (map fst d) \<and> list_all (\<lambda>cv. valid_rate (snd cv)) d)"

text \<open>
  The specification's effective rate of a column: absent for an excluded column; otherwise
  the bare number, or the number the mapping gives the column, absent when the mapping
  does not name it.
\<close>

definition effective_rate :: "arg \<Rightarrow> exclude_arg \<Rightarrow> string \<Rightarrow> rat option" where
  "effective_rate missing_pct exclude c =
     (if c \<in> exclude_set exclude then None
      else case missing_pct of
             Val v \<Rightarrow> rate_of v
           | Dict d \<Rightarrow> (case map_of d c of None \<Rightarrow> None | Some v \<Rightarrow> rate_of v))"


text \<open>What the validation loop stores for a valid entry: a number as a float.\<close>

fun stored_rate :: "pyval \<Rightarrow> pyval" where
  "stored_rate (PInt i) = PFloat (of_int i)"
| "stored_rate v = v"

text \<open>
  What one pass of the loop body does to column \<open>c\<close>, as a relation between the column's
  cells and mask before and after: nothing when the column is excluded or its rate is
  \<open>None\<close>; otherwise the positions drawn by \<open>choice\<close> are marked and overwritten.
\<close>

definition col_outcome ::
  "('g \<Rightarrow> nat \<Rightarrow> nat \<Rightarrow> nat list \<times> 'g) \<Rightarrow> string set \<Rightarrow> (string \<rightharpoonup> pyval) \<Rightarrow> (string \<rightharpoonup> pyval) \<Rightarrow>
   nat \<Rightarrow> string \<Rightarrow> pyval list option \<Rightarrow> bool list option \<Rightarrow> pyval list option \<Rightarrow> bool list option \<Rightarrow> bool" where
  "col_outcome choice ex mp na n c so mo so' mo' \<longleftrightarrow>
     (if c \<in> ex \<or> mp c = Some PNone then so' = so \<and> mo' = mo
      else \<exists>pct v s m k g1.
             mp c = Some pct \<and> na c = Some v \<and> so = Some s \<and> mo = Some m \<and>
             n_knockout n pct = Inr k \<and> 0 \<le> k \<and> k \<le> int n \<and>
             mo' = Some (set_true (fst (choice g1 n (nat k))) m) \<and>
             so' = Some (py_where s (map Not (set_true (fst (choice g1 n (nat k))) m)) v))"

text \<open>The cells and the mask of one column of a result, or the exception.\<close>

definition result_column ::
  "(error + pyval list frame \<times> bool list frame) \<times> 'g \<Rightarrow> string \<Rightarrow> error + pyval list option \<times> bool list option" where
  "result_column r c =
     (case fst r of Inl e \<Rightarrow> Inl e | Inr (masked_df, mask_df) \<Rightarrow> Inr (series masked_df c, series mask_df c))"




section \<open>Concrete inputs\<close>

text \<open>
  The table of the specification's scenario: an integer column \<open>a\<close> and a string column
  \<open>b\<close>, five rows.
\<close>

definition example_table :: "pyval list frame" where
  "example_table =
     \<lparr> n_rows = 5, columns = [''a'', ''b''],
       dtypes = [''a'' \<mapsto> ''int64'', ''b'' \<mapsto> ''object''],
       series = [''a'' \<mapsto> [PInt 1, PInt 2, PInt 3, PInt 4, PInt 5],
                 ''b'' \<mapsto> [PStr ''x'', PStr ''y'', PStr ''z'', PStr ''w'', PStr ''v'']] \<rparr>"

text \<open>A table with one floating column \<open>x\<close> of two rows.\<close>

definition float_table :: "pyval list frame" where
  "float_table =
     \<lparr> n_rows = 2, columns = [''x''],
       dtypes = [''x'' \<mapsto> ''float64''],
       series = [''x'' \<mapsto> [PFloat (3 / 2), PFloat (5 / 2)]] \<rparr>"

text \<open>
  A generator whose state is a counter: it draws the first \<open>k\<close> positions of \<open>[0, n)\<close>
  rotated by the counter, and increments the counter.
\<close>

definition rotate_choice :: "nat \<Rightarrow> nat \<Rightarrow> nat \<Rightarrow> nat list \<times> nat" where
  "rotate_choice g n k = (take k (rotate g [0..<n]), Suc g)"

text \<open>The example table in a store: the arrays of \<open>a\<close> and \<open>b\<close> at the addresses 0 and 1.\<close>

definition example_store :: store where
  "example_store =
     \<lparr> arrays = [0 \<mapsto> Values [PInt 1, PInt 2, PInt 3, PInt 4, PInt 5],
                 1 \<mapsto> Values [PStr ''x'', PStr ''y'', PStr ''z'', PStr ''w'', PStr ''v'']],
       fresh = 2 \<rparr>"

definition example_refs :: "nat frame" where
  "example_refs =
     \<lparr> n_rows = 5, columns = [''a'', ''b''],
       dtypes = [''a'' \<mapsto> ''int64'', ''b'' \<mapsto> ''object''],
       series = [''a'' \<mapsto> 0, ''b'' \<mapsto> 1] \<rparr>"

section \<open>Lists: marking and replacing\<close>

lemma length_set_true: "length (set_true idx m) = length m"
  unfolding set_true_def by (induction idx arbitrary: m) auto




lemma length_py_where: "length cond = length s \<Longrightarrow> length (py_where s cond v) = length s"
  by (simp add: py_where_def)

lemma nth_py_where:
  "length cond = length s \<Longrightarrow> j < length s \<Longrightarrow> py_where s cond v ! j = (if cond ! j then s ! j else v)"
  by (simp add: py_where_def)


section \<open>Rounding\<close>

lemma np_round_bounds:
  assumes "0 \<le> x" and "x \<le> of_nat n"
  shows "0 \<le> np_round x \<and> np_round x \<le> int n"
proof -
  have f0: "0 \<le> \<lfloor>x\<rfloor>" using assms(1) by simp
  have fn: "\<lfloor>x\<rfloor> \<le> int n" using assms(2) by (simp add: floor_le_iff) 
  have up: "\<lfloor>x\<rfloor> + 1 \<le> int n" if "of_int \<lfloor>x\<rfloor> < x"
  proof -
    have "of_int \<lfloor>x\<rfloor> < (of_int (int n) :: rat)" using that assms(2) by simp
    then have "\<lfloor>x\<rfloor> < int n" by (simp only: of_int_less_iff)
    then show ?thesis by simp
  qed
  show ?thesis
    unfolding np_round_def Let_def using f0 fn up by (auto split: if_splits)
qed


section \<open>The loop body and the loop\<close>

lemma knockout_column_frame:
  assumes "knockout_column choice ex mp na c (mdf, mk, g) = (Inr (mdf', mk'), g')"
  shows "n_rows mdf' = n_rows mdf \<and> columns mdf' = columns mdf \<and> dtypes mdf' = dtypes mdf \<and>
         n_rows mk' = n_rows mk \<and> columns mk' = columns mk \<and> dtypes mk' = dtypes mk \<and>
         (\<forall>c'. c' \<noteq> c \<longrightarrow> series mdf' c' = series mdf c' \<and> series mk' c' = series mk c')"
  using assms unfolding knockout_column_def Let_def
  by (auto split: if_splits option.splits sum.splits prod.splits)

lemma knockout_column_skip:
  assumes "c \<in> ex \<or> mp c = Some PNone"
  shows "knockout_column choice ex mp na c (mdf, mk, g) = (Inr (mdf, mk), g)"
  using assms unfolding knockout_column_def by auto

lemma knockout_column_outcome:
  assumes "knockout_column choice ex mp na c (mdf, mk, g) = (Inr (mdf', mk'), g')"
  shows "col_outcome choice ex mp na (n_rows mdf) c (series mdf c) (series mk c)
           (series mdf' c) (series mk' c)"
proof (cases "c \<in> ex \<or> mp c = Some PNone")
  case True
  then show ?thesis
    using assms by (simp add: knockout_column_skip col_outcome_def)
next
  case False
  from False assms obtain pct k idx v s m where
    pct: "mp c = Some pct" and k: "n_knockout (n_rows mdf) pct = Inr k"
    and rc: "random_choice choice g (n_rows mdf) k = (Inr idx, g')"
    and look: "series mk c = Some m" "series mdf c = Some s" "na c = Some v"
    and res: "series mk' c = Some (set_true idx m)"
             "series mdf' c = Some (py_where s (map Not (set_true idx m)) v)"
    unfolding knockout_column_def Let_def
    by (auto split: if_splits option.splits sum.splits prod.splits)
  from rc have rng: "0 \<le> k" "k \<le> int (n_rows mdf)" and idx: "idx = fst (choice g (n_rows mdf) (nat k))"
    unfolding random_choice_def by (auto split: if_splits prod.splits)
  show ?thesis
    unfolding col_outcome_def using False pct k look res rng idx by auto
qed

lemma knockout_loop_frame:
  assumes "knockout_loop choice ex mp na cs (mdf, mk, g) = (Inr (mdf', mk'), g')"
  shows "n_rows mdf' = n_rows mdf \<and> columns mdf' = columns mdf \<and> dtypes mdf' = dtypes mdf \<and>
         n_rows mk' = n_rows mk \<and> columns mk' = columns mk \<and> dtypes mk' = dtypes mk \<and>
         (\<forall>c'. c' \<notin> set cs \<longrightarrow> series mdf' c' = series mdf c' \<and> series mk' c' = series mk c')"
  using assms
proof (induction cs arbitrary: mdf mk g)
  case Nil
  then show ?case by simp
next
  case (Cons c cs)
  from Cons.prems obtain mdf1 mk1 g1 where
    step: "knockout_column choice ex mp na c (mdf, mk, g) = (Inr (mdf1, mk1), g1)"
    and rest: "knockout_loop choice ex mp na cs (mdf1, mk1, g1) = (Inr (mdf', mk'), g')"
    by (auto split: sum.splits prod.splits)
  show ?case
    using knockout_column_frame [OF step] Cons.IH [OF rest] by auto
qed

lemma knockout_loop_skip:
  assumes "knockout_loop choice ex mp na cs (mdf, mk, g) = (Inr (mdf', mk'), g')"
    and "c \<in> ex \<or> mp c = Some PNone"
  shows "series mdf' c = series mdf c \<and> series mk' c = series mk c"
  using assms(1)
proof (induction cs arbitrary: mdf mk g)
  case Nil
  then show ?case by simp
next
  case (Cons c0 cs)
  from Cons.prems obtain mdf1 mk1 g1 where
    step: "knockout_column choice ex mp na c0 (mdf, mk, g) = (Inr (mdf1, mk1), g1)"
    and rest: "knockout_loop choice ex mp na cs (mdf1, mk1, g1) = (Inr (mdf', mk'), g')"
    by (auto split: sum.splits prod.splits)
  have "series mdf1 c = series mdf c \<and> series mk1 c = series mk c"
  proof (cases "c0 = c")
    case True
    then show ?thesis using step assms(2) by (simp add: knockout_column_skip)
  next
    case False
    then show ?thesis using knockout_column_frame [OF step] by auto
  qed
  then show ?case using Cons.IH [OF rest] by simp
qed

lemma knockout_loop_outcome:
  assumes "knockout_loop choice ex mp na cs (mdf, mk, g) = (Inr (mdf', mk'), g')"
    and "distinct cs" and "c \<in> set cs"
  shows "col_outcome choice ex mp na (n_rows mdf) c (series mdf c) (series mk c)
           (series mdf' c) (series mk' c)"
  using assms
proof (induction cs arbitrary: mdf mk g)
  case Nil
  then show ?case by simp
next
  case (Cons c0 cs)
  from Cons.prems(1) obtain mdf1 mk1 g1 where
    step: "knockout_column choice ex mp na c0 (mdf, mk, g) = (Inr (mdf1, mk1), g1)"
    and rest: "knockout_loop choice ex mp na cs (mdf1, mk1, g1) = (Inr (mdf', mk'), g')"
    by (auto split: sum.splits prod.splits)
  note fr1 = knockout_column_frame [OF step]
  show ?case
  proof (cases "c0 = c")
    case True
    then have "c \<notin> set cs" using Cons.prems(2) by simp
    then have "series mdf' c = series mdf1 c" "series mk' c = series mk1 c"
      using knockout_loop_frame [OF rest] by auto
    then show ?thesis
      using knockout_column_outcome [OF step] True by simp
  next
    case False
    then have "c \<in> set cs" using Cons.prems(3) by simp
    moreover have "distinct cs" using Cons.prems(2) by simp
    ultimately have "col_outcome choice ex mp na (n_rows mdf1) c (series mdf1 c) (series mk1 c)
           (series mdf' c) (series mk' c)"
      using Cons.IH [OF rest] by simp
    then show ?thesis using fr1 False by simp
  qed
qed

section \<open>Validation\<close>

lemma missing_pct_items_other:
  "missing_pct_items d m = Inr m' \<Longrightarrow> c \<notin> fst ` set d \<Longrightarrow> m' c = m c"
proof (induction d arbitrary: m)
  case Nil
  then show ?case by simp
next
  case (Cons cv d)
  obtain c0 v0 where cv: "cv = (c0, v0)" by (cases cv)
  from Cons.prems(2) cv have ne: "c \<noteq> c0" and notin: "c \<notin> fst ` set d" by auto
  from Cons.prems(1) cv obtain f where "missing_pct_items d (m(c0 \<mapsto> f)) = Inr m'"
    by (auto split: if_splits sum.splits)
  from Cons.IH [OF this notin] ne show ?case by simp
qed

lemma valid_rate_stored:
  assumes "valid_rate v"
  shows "if float_like v then py_float v = Inr (stored_rate v) \<and> is_pct (stored_rate v) = Inr True
         else stored_rate v = v"
  using assms by (cases v) auto

lemma missing_pct_items_valid:
  assumes "distinct (map fst d)" and "list_all (\<lambda>cv. valid_rate (snd cv)) d"
  shows "missing_pct_items d m =
           Inr (\<lambda>c. case map_of d c of None \<Rightarrow> m c | Some v \<Rightarrow> Some (stored_rate v))"
  using assms
proof (induction d arbitrary: m)
  case Nil
  then show ?case by simp
next
  case (Cons cv d)
  obtain c0 v0 where cv: "cv = (c0, v0)" by (cases cv)
  from Cons.prems cv have dist: "distinct (map fst d)" and c0: "c0 \<notin> fst ` set d"
    and v0: "valid_rate v0" and rest: "list_all (\<lambda>cv. valid_rate (snd cv)) d"
    by auto
  have none: "map_of d c0 = None" using c0 by (simp add: map_of_eq_None_iff)
  have step: "missing_pct_items (cv # d) m = missing_pct_items d (m(c0 \<mapsto> stored_rate v0))"
    using valid_rate_stored [OF v0] cv by (auto split: if_splits)
  have "(\<lambda>c. case map_of d c of None \<Rightarrow> (m(c0 \<mapsto> stored_rate v0)) c | Some v \<Rightarrow> Some (stored_rate v))
      = (\<lambda>c. case map_of (cv # d) c of None \<Rightarrow> m c | Some v \<Rightarrow> Some (stored_rate v))"
    using none cv by (auto simp: fun_eq_iff split: option.splits)
  then show ?case
    using step Cons.IH [OF dist rest, of "m(c0 \<mapsto> stored_rate v0)"] by simp
qed

lemma resolve_missing_pct_valid:
  assumes "valid_missing_pct mp"
  shows "\<exists>rates. resolve_missing_pct df mp = Inr rates \<and>
           (\<forall>c \<in> set (columns df).
              rates c = Some (case effective_rate mp ExNone c of None \<Rightarrow> PNone | Some p \<Rightarrow> PFloat p))"
proof (cases mp)
  case (Val v)
  with assms have "valid_rate v" by simp
  then show ?thesis
    using Val by (cases v) (auto simp: resolve_missing_pct_def effective_rate_def)
next
  case (Dict d)
  with assms have d: "distinct (map fst d)" "list_all (\<lambda>cv. valid_rate (snd cv)) d" by auto
  have vr: "valid_rate v" if "map_of d c = Some v" for c v
    using that d(2) by (auto simp: list_all_iff dest!: map_of_SomeD)
  have "stored_rate v = (case rate_of v of None \<Rightarrow> PNone | Some p \<Rightarrow> PFloat p)" if "valid_rate v" for v
    using that by (cases v) auto
  then show ?thesis
    using Dict vr unfolding resolve_missing_pct_def Let_def
    by (auto simp: missing_pct_items_valid [OF d] effective_rate_def split: option.splits)
qed

lemma effective_rate_valid:
  assumes "valid_missing_pct mp" and "effective_rate mp ex c = Some p"
  shows "0 \<le> p \<and> p \<le> 1"
proof (cases mp)
  case (Val v)
  then show ?thesis using assms by (cases v) (auto simp: effective_rate_def split: if_splits)
next
  case (Dict d)
  with assms obtain v where v: "map_of d c = Some v" "rate_of v = Some p"
    by (auto simp: effective_rate_def split: if_splits option.splits)
  then have "valid_rate v" using assms(1) Dict by (auto simp: list_all_iff dest!: map_of_SomeD)
  then show ?thesis using v(2) by (cases v) auto
qed

section \<open>The call returns on valid input\<close>

lemma knockout_column_dom:
  assumes "knockout_column choice ex mp na c (mdf, mk, g) = (Inr (mdf', mk'), g')"
  shows "(series mdf' c' = None \<longleftrightarrow> series mdf c' = None) \<and>
         (series mk' c' = None \<longleftrightarrow> series mk c' = None)"
  using assms unfolding knockout_column_def Let_def
  by (auto split: if_splits option.splits sum.splits prod.splits)

lemma n_knockout_valid:
  assumes "0 \<le> r" and "r \<le> 1"
  shows "\<exists>k. n_knockout n (PFloat r) = Inr k \<and> 0 \<le> k \<and> k \<le> int n"
proof -
  have "0 \<le> of_nat n * r" using assms(1) by simp
  moreover have "of_nat n * r \<le> of_nat n"
    using assms(2) by (simp add: mult_left_le)
  ultimately show ?thesis using np_round_bounds by simp
qed

lemma knockout_column_returns:
  assumes "c \<in> ex \<or> mp c = Some PNone \<or> (\<exists>r. mp c = Some (PFloat r) \<and> 0 \<le> r \<and> r \<le> 1)"
    and "na c \<noteq> None" and "series mdf c \<noteq> None" and "series mk c \<noteq> None"
  shows "\<exists>mdf' mk' g'. knockout_column choice ex mp na c (mdf, mk, g) = (Inr (mdf', mk'), g')"
proof (cases "c \<in> ex \<or> mp c = Some PNone")
  case True
  then show ?thesis by (simp add: knockout_column_skip)
next
  case False
  with assms(1) obtain r where r: "mp c = Some (PFloat r)" "0 \<le> r" "r \<le> 1" by auto
  from n_knockout_valid [OF r(2,3)] obtain k where
    k: "n_knockout (n_rows mdf) (PFloat r) = Inr k" "0 \<le> k" "k \<le> int (n_rows mdf)" by blast
  obtain idx g1 where ch: "choice g (n_rows mdf) (nat k) = (idx, g1)" by (cases "choice g (n_rows mdf) (nat k)")
  have rc: "random_choice choice g (n_rows mdf) k = (Inr idx, g1)"
    using k(2,3) ch by (simp add: random_choice_def)
  from assms(2-4) obtain v s m where "na c = Some v" "series mdf c = Some s" "series mk c = Some m"
    by auto
  then show ?thesis
    using False r(1) k(1) rc unfolding knockout_column_def Let_def by simp
qed

lemma knockout_loop_returns:
  assumes "\<forall>c \<in> set cs.
             (c \<in> ex \<or> mp c = Some PNone \<or> (\<exists>r. mp c = Some (PFloat r) \<and> 0 \<le> r \<and> r \<le> 1)) \<and>
             na c \<noteq> None \<and> series mdf c \<noteq> None \<and> series mk c \<noteq> None"
  shows "\<exists>mdf' mk' g'. knockout_loop choice ex mp na cs (mdf, mk, g) = (Inr (mdf', mk'), g')"
  using assms
proof (induction cs arbitrary: mdf mk g)
  case Nil
  then show ?case by simp
next
  case (Cons c cs)
  from Cons.prems obtain mdf1 mk1 g1 where
    step: "knockout_column choice ex mp na c (mdf, mk, g) = (Inr (mdf1, mk1), g1)"
    using knockout_column_returns [of c ex mp na mdf mk choice g] by auto
  have "\<forall>c \<in> set cs.
             (c \<in> ex \<or> mp c = Some PNone \<or> (\<exists>r. mp c = Some (PFloat r) \<and> 0 \<le> r \<and> r \<le> 1)) \<and>
             na c \<noteq> None \<and> series mdf1 c \<noteq> None \<and> series mk1 c \<noteq> None"
    using Cons.prems knockout_column_dom [OF step] by simp
  from Cons.IH [OF this] obtain mdf' mk' g' where
    "knockout_loop choice ex mp na cs (mdf1, mk1, g1) = (Inr (mdf', mk'), g')" by blast
  then show ?case using step by simp
qed

lemma na_values_defined:
  assumes "wf_frame df" and "c \<in> set (columns df)"
  shows "\<exists>v. na_values df na c = Some v"
proof -
  from assms obtain t where "dtypes df c = Some t" by (auto simp: wf_frame_def)
  then show ?thesis
    using assms(2) by (cases na) (auto simp: na_values_def split: option.splits)
qed

lemma knockout_values_returns:
  assumes "wf_frame df" and "valid_missing_pct mp"
  shows "\<exists>mdf mk g'. knockout_values choice df mp na ex g = (Inr (mdf, mk), g')"
proof -
  from resolve_missing_pct_valid [OF assms(2)] obtain rates where
    rates: "resolve_missing_pct df mp = Inr rates"
    and rc: "\<forall>c \<in> set (columns df).
              rates c = Some (case effective_rate mp ExNone c of None \<Rightarrow> PNone | Some p \<Rightarrow> PFloat p)"
    by blast
  have line30: "mp = Val PNone \<or> (case mp of Val v \<Rightarrow> float_like v | Dict d \<Rightarrow> True)"
  proof (cases mp)
    case (Val v)
    then show ?thesis using assms(2) by (cases v) auto
  next
    case (Dict d)
    then show ?thesis by simp
  qed
  have "\<forall>c \<in> set (columns df).
          (c \<in> exclude_set ex \<or> rates c = Some PNone \<or>
             (\<exists>r. rates c = Some (PFloat r) \<and> 0 \<le> r \<and> r \<le> 1)) \<and>
          na_values df na c \<noteq> None \<and> series df c \<noteq> None \<and> series (zeros_mask df) c \<noteq> None"
  proof
    fix c assume c: "c \<in> set (columns df)"
    have "rates c = Some PNone \<or> (\<exists>r. rates c = Some (PFloat r) \<and> 0 \<le> r \<and> r \<le> 1)"
    proof (cases "effective_rate mp ExNone c")
      case None
      then show ?thesis using rc c by simp
    next
      case (Some p)
      then show ?thesis using rc c effective_rate_valid [OF assms(2) Some] by simp
    qed
    moreover have "series df c \<noteq> None"
      using assms(1) c by (auto simp: wf_frame_def split: option.splits)
    ultimately show "(c \<in> exclude_set ex \<or> rates c = Some PNone \<or>
             (\<exists>r. rates c = Some (PFloat r) \<and> 0 \<le> r \<and> r \<le> 1)) \<and>
          na_values df na c \<noteq> None \<and> series df c \<noteq> None \<and> series (zeros_mask df) c \<noteq> None"
      using na_values_defined [OF assms(1) c, of na] c by (auto simp: zeros_mask_def)
  qed
  from knockout_loop_returns [OF this] show ?thesis
    using rates line30 unfolding knockout_values_def by simp
qed

section \<open>The result, column by column\<close>

lemma knockout_values_Inr:
  assumes "knockout_values choice df mp na ex g = (Inr (mdf, mk), g')"
  shows "\<exists>rates. resolve_missing_pct df mp = Inr rates \<and>
           knockout_loop choice (exclude_set ex) rates (na_values df na) (columns df)
             (df, zeros_mask df, g) = (Inr (mdf, mk), g')"
  using assms unfolding knockout_values_def
  by (auto split: if_splits sum.splits)

lemma knockout_values_frame:
  assumes "knockout_values choice df mp na ex g = (Inr (mdf, mk), g')"
  shows "n_rows mdf = n_rows df \<and> columns mdf = columns df \<and> dtypes mdf = dtypes df \<and>
         n_rows mk = n_rows df \<and> columns mk = columns df"
proof -
  from knockout_values_Inr [OF assms] obtain rates where
    "knockout_loop choice (exclude_set ex) rates (na_values df na) (columns df)
             (df, zeros_mask df, g) = (Inr (mdf, mk), g')" by blast
  from knockout_loop_frame [OF this] show ?thesis by (simp add: zeros_mask_def)
qed

lemma knockout_values_cells:
  assumes res: "knockout_values choice df mp na ex g = (Inr (mdf, mk), g')"
    and wf: "wf_frame df" and c: "c \<in> set (columns df)"
  shows "\<exists>s m s' v. series df c = Some s \<and> series mk c = Some m \<and> series mdf c = Some s' \<and>
           na_values df na c = Some v \<and> length s = n_rows df \<and> length m = n_rows df \<and>
           length s' = n_rows df \<and>
           (\<forall>i < n_rows df. s' ! i = (if m ! i then v else s ! i))"
proof -
  from knockout_values_Inr [OF res] obtain rates where
    loop: "knockout_loop choice (exclude_set ex) rates (na_values df na) (columns df)
             (df, zeros_mask df, g) = (Inr (mdf, mk), g')" by blast
  from wf c obtain s where s: "series df c = Some s" "length s = n_rows df"
    by (auto simp: wf_frame_def split: option.splits)
  from na_values_defined [OF wf c] obtain v0 where v0: "na_values df na c = Some v0" by blast
  have z: "series (zeros_mask df) c = Some (replicate (n_rows df) False)"
    using c by (simp add: zeros_mask_def)
  from wf have "distinct (columns df)" by (simp add: wf_frame_def)
  from knockout_loop_outcome [OF loop this c]
  have out: "col_outcome choice (exclude_set ex) rates (na_values df na) (n_rows df) c
           (Some s) (Some (replicate (n_rows df) False)) (series mdf c) (series mk c)"
    using s z by simp
  show ?thesis
  proof (cases "c \<in> exclude_set ex \<or> rates c = Some PNone")
    case True
    with out have "series mdf c = Some s" "series mk c = Some (replicate (n_rows df) False)"
      by (simp_all add: col_outcome_def)
    then show ?thesis using s v0 by simp
  next
    case False
    with out v0 obtain idx where
      m: "series mk c = Some (set_true idx (replicate (n_rows df) False))"
      and s': "series mdf c = Some (py_where s (map Not (set_true idx (replicate (n_rows df) False))) v0)"
      by (auto simp: col_outcome_def)
    let ?m = "set_true idx (replicate (n_rows df) False)"
    have lm: "length ?m = n_rows df" by (simp add: length_set_true)
    have "length (py_where s (map Not ?m) v0) = n_rows df"
      using lm s(2) by (simp add: length_py_where)
    moreover have "\<forall>i < n_rows df. py_where s (map Not ?m) v0 ! i = (if ?m ! i then v0 else s ! i)"
      using lm s(2) by (simp add: nth_py_where)
    ultimately show ?thesis using s v0 m s' lm by simp
  qed
qed


section \<open>The concrete inputs are well-formed\<close>


lemma wf_example_table: "wf_frame example_table"
  by (simp add: wf_frame_def example_table_def)

lemma wf_float_table: "wf_frame float_table"
  by (simp add: wf_frame_def float_table_def)

section \<open>Rejected configurations\<close>




section \<open>The store: what the call leaves alone\<close>

lemma kept_refl: "kept b h h"
  by (simp add: kept_def)

lemma kept_trans: "kept b h h1 \<Longrightarrow> kept b h1 h2 \<Longrightarrow> kept b h h2"
  by (auto simp: kept_def)

lemma alloc_kept:
  assumes "alloc x h = (a, h')" and "b \<le> fresh h"
  shows "kept b h h' \<and> b \<le> a \<and> a = fresh h"
  using assms by (auto simp: alloc_def kept_def)

lemma store_write_kept: "b \<le> a \<Longrightarrow> kept b h (store_write a x h)"
  by (auto simp: store_write_def kept_def)

lemma copy_arrays_kept:
  assumes "copy_arrays cs src (dst, h) = (dst', h')" and "b \<le> fresh h" and "above b dst"
  shows "kept b h h' \<and> above b dst'"
  using assms
proof (induction cs arbitrary: dst h)
  case Nil
  then show ?case by (simp add: kept_refl)
next
  case (Cons c cs)
  show ?case
  proof (cases "\<exists>a x. src c = Some a \<and> arrays h a = Some x")
    case False
    then have "copy_arrays cs src (dst, h) = (dst', h')"
      using Cons.prems(1) by (auto split: option.splits)
    from Cons.IH [OF this Cons.prems(2,3)] show ?thesis .
  next
    case True
    then obtain a x where ax: "src c = Some a" "arrays h a = Some x" by blast
    obtain a' h1 where al: "alloc x h = (a', h1)" by (cases "alloc x h")
    from alloc_kept [OF al Cons.prems(2)] have k1: "kept b h h1" and a': "b \<le> a'" by simp_all
    have rest: "copy_arrays cs src (dst(c \<mapsto> a'), h1) = (dst', h')"
      using Cons.prems(1) ax al by simp
    have f1: "b \<le> fresh h1" using k1 Cons.prems(2) by (simp add: kept_def)
    have ab: "above b (dst(c \<mapsto> a'))" using Cons.prems(3) a' by (simp add: above_def)
    from Cons.IH [OF rest f1 ab] have "kept b h1 h'" and "above b dst'" by blast+
    then show ?thesis using kept_trans [OF k1] by blast
  qed
qed

lemma zeros_arrays_kept:
  assumes "zeros_arrays cs n (dst, h) = (dst', h')" and "b \<le> fresh h" and "above b dst"
  shows "kept b h h' \<and> above b dst'"
  using assms
proof (induction cs arbitrary: dst h)
  case Nil
  then show ?case by (simp add: kept_refl)
next
  case (Cons c cs)
  obtain a h1 where al: "alloc (Flags (replicate n False)) h = (a, h1)"
    by (cases "alloc (Flags (replicate n False)) h")
  from alloc_kept [OF al Cons.prems(2)] have k1: "kept b h h1" and a: "b \<le> a" by simp_all
  have rest: "zeros_arrays cs n (dst(c \<mapsto> a), h1) = (dst', h')"
    using Cons.prems(1) al by simp
  have f1: "b \<le> fresh h1" using k1 Cons.prems(2) by (simp add: kept_def)
  have ab: "above b (dst(c \<mapsto> a))" using Cons.prems(3) a by (simp add: above_def)
  from Cons.IH [OF rest f1 ab] have "kept b h1 h'" and "above b dst'" by blast+
  then show ?case using kept_trans [OF k1] by blast
qed

lemma knockout_column_store_cases:
  assumes "knockout_column_store choice ex mp na c (mdf, mk, h, g) = (r, h', g')"
  shows "(h' = h \<and> (r = Inr (mdf, mk) \<or> (\<exists>e. r = Inl e))) \<or>
         (\<exists>idx am av v m s a'.
            series mk c = Some am \<and> series mdf c = Some av \<and>
            arrays h am = Some (Flags m) \<and> arrays h av = Some (Values s) \<and>
            alloc (Values (py_where s (map Not (set_true idx m)) v))
              (store_write am (Flags (set_true idx m)) h) = (a', h') \<and>
            r = Inr (mdf\<lparr>series := (series mdf)(c \<mapsto> a')\<rparr>, mk))"
  using assms unfolding knockout_column_store_def Let_def
  by (auto split: if_splits option.splits sum.splits prod.splits array.splits)

lemma knockout_column_store_kept:
  assumes "knockout_column_store choice ex mp na c (mdf, mk, h, g) = (r, h', g')"
    and "b \<le> fresh h" and "above b (series mdf)" and "above b (series mk)"
  shows "kept b h h' \<and>
         (\<forall>mdf' mk'. r = Inr (mdf', mk') \<longrightarrow> above b (series mdf') \<and> above b (series mk'))"
proof -
  from knockout_column_store_cases [OF assms(1)]
  consider (same) "h' = h" "r = Inr (mdf, mk) \<or> (\<exists>e. r = Inl e)"
    | (written) idx am v m s a' where "series mk c = Some am"
        "alloc (Values (py_where s (map Not (set_true idx m)) v))
               (store_write am (Flags (set_true idx m)) h) = (a', h')"
        "r = Inr (mdf\<lparr>series := (series mdf)(c \<mapsto> a')\<rparr>, mk)"
    by blast
  then show ?thesis
  proof cases
    case same
    then show ?thesis using assms(3,4) by (auto simp: kept_refl)
  next
    case written
    from written(1) assms(4) have am: "b \<le> am" by (simp add: above_def)
    have k1: "kept b h (store_write am (Flags (set_true idx m)) h)"
      using am by (rule store_write_kept)
    then have "b \<le> fresh (store_write am (Flags (set_true idx m)) h)"
      using assms(2) by (simp add: kept_def)
    from alloc_kept [OF written(2) this]
    have k2: "kept b (store_write am (Flags (set_true idx m)) h) h'"
      and a': "b \<le> a'" by simp_all
    have "above b ((series mdf)(c \<mapsto> a'))" using assms(3) a' by (simp add: above_def)
    then show ?thesis using kept_trans [OF k1 k2] written(3) assms(4) by simp
  qed
qed

lemma knockout_loop_store_kept:
  assumes "knockout_loop_store choice ex mp na cs (mdf, mk, h, g) = (r, h', g')"
    and "b \<le> fresh h" and "above b (series mdf)" and "above b (series mk)"
  shows "kept b h h' \<and>
         (\<forall>mdf' mk'. r = Inr (mdf', mk') \<longrightarrow> above b (series mdf') \<and> above b (series mk'))"
  using assms
proof (induction cs arbitrary: mdf mk h g)
  case Nil
  then show ?case by (auto simp: kept_refl)
next
  case (Cons c cs)
  obtain r1 h1 g1 where step: "knockout_column_store choice ex mp na c (mdf, mk, h, g) = (r1, h1, g1)"
    by (cases "knockout_column_store choice ex mp na c (mdf, mk, h, g)")
  note s1 = knockout_column_store_kept [OF step Cons.prems(2,3,4)]
  show ?case
  proof (cases r1)
    case (Inl e)
    then show ?thesis using step Cons.prems(1) s1 by auto
  next
    case (Inr fr)
    obtain mdf1 mk1 where fr: "fr = (mdf1, mk1)" by (cases fr)
    have rest: "knockout_loop_store choice ex mp na cs (mdf1, mk1, h1, g1) = (r, h', g')"
      using Cons.prems(1) step Inr fr by simp
    have "b \<le> fresh h1" using s1 Cons.prems(2) by (simp add: kept_def)
    moreover have "above b (series mdf1)" "above b (series mk1)" using s1 Inr fr by simp_all
    ultimately have "kept b h1 h' \<and>
         (\<forall>mdf' mk'. r = Inr (mdf', mk') \<longrightarrow> above b (series mdf') \<and> above b (series mk'))"
      by (rule Cons.IH [OF rest])
    moreover have "kept b h h1" using s1 by simp
    ultimately show ?thesis using kept_trans by blast
  qed
qed

lemma knockout_values_store_kept:
  assumes "knockout_values_store choice df mp na ex (h, g) = (r, h', g')"
  shows "kept (fresh h) h h' \<and>
         (\<forall>mdf mk. r = Inr (mdf, mk) \<longrightarrow>
            above (fresh h) (series mdf) \<and> above (fresh h) (series mk))"
proof (cases "\<exists>rates. (mp = Val PNone \<or> (case mp of Val v \<Rightarrow> float_like v | Dict d \<Rightarrow> True)) \<and>
                 resolve_missing_pct df mp = Inr rates")
  case False
  then have "h' = h \<and> (\<exists>e. r = Inl e)"
    using assms unfolding knockout_values_store_def
    by (auto split: if_splits sum.splits)
  then show ?thesis by (auto simp: kept_refl)
next
  case True
  then obtain rates where ok: "mp = Val PNone \<or> (case mp of Val v \<Rightarrow> float_like v | Dict d \<Rightarrow> True)"
    and rates: "resolve_missing_pct df mp = Inr rates" by blast
  obtain mdf0 h1 where cp: "copy_frame df h = (mdf0, h1)" by (cases "copy_frame df h")
  obtain mk0 h2 where zm: "zeros_mask_store df h1 = (mk0, h2)" by (cases "zeros_mask_store df h1")
  have loop: "knockout_loop_store choice (exclude_set ex) rates (na_values df na) (columns df)
                (mdf0, mk0, h2, g) = (r, h', g')"
    using assms ok rates cp zm unfolding knockout_values_store_def by auto
  have e: "above (fresh h) Map.empty" by (simp add: above_def)
  from cp obtain dst where c1: "copy_arrays (columns df) (series df) (Map.empty, h) = (dst, h1)"
    and m0: "series mdf0 = dst"
    unfolding copy_frame_def by (auto split: prod.splits)
  from copy_arrays_kept [OF c1 _ e] have k1: "kept (fresh h) h h1" and a1: "above (fresh h) (series mdf0)"
    using m0 by simp_all
  from zm obtain dst2 where c2: "zeros_arrays (columns df) (n_rows df) (Map.empty, h1) = (dst2, h2)"
    and m2: "series mk0 = dst2"
    unfolding zeros_mask_store_def by (auto split: prod.splits)
  have f1: "fresh h \<le> fresh h1" using k1 by (simp add: kept_def)
  from zeros_arrays_kept [OF c2 f1 e] have k2: "kept (fresh h) h1 h2" and a2: "above (fresh h) (series mk0)"
    using m2 by simp_all
  have f2: "fresh h \<le> fresh h2" using k2 f1 by (simp add: kept_def)
  from knockout_loop_store_kept [OF loop f2 a1 a2]
  have k3: "kept (fresh h) h2 h'"
    and ab: "\<forall>mdf mk. r = Inr (mdf, mk) \<longrightarrow>
            above (fresh h) (series mdf) \<and> above (fresh h) (series mk)" by blast+
  have "kept (fresh h) h h'" using kept_trans [OF kept_trans [OF k1 k2] k3] .
  then show ?thesis using ab by simp
qed

section \<open>The store: the same tables as on values\<close>

lemma knockout_column_decide:
  "knockout_column choice ex mp na c (mdf, mk, g) =
     (case decide choice ex mp (n_rows mdf) c g of
        Skip \<Rightarrow> (Inr (mdf, mk), g)
      | Fail e g' \<Rightarrow> (Inl e, g')
      | Draw idx g' \<Rightarrow>
          (case (series mk c, series mdf c, na c) of
             (Some m, Some s, Some v) \<Rightarrow>
               (Inr (mdf\<lparr>series := (series mdf)(c \<mapsto> py_where s (map Not (set_true idx m)) v)\<rparr>,
                     mk\<lparr>series := (series mk)(c \<mapsto> set_true idx m)\<rparr>), g')
           | _ \<Rightarrow> (Inl KeyError, g')))"
  unfolding knockout_column_def decide_def Let_def
  by (auto split: option.splits sum.splits prod.splits)

lemma knockout_column_store_decide:
  "knockout_column_store choice ex mp na c (rv, rm, h, g) =
     (case decide choice ex mp (n_rows rv) c g of
        Skip \<Rightarrow> (Inr (rv, rm), h, g)
      | Fail e g' \<Rightarrow> (Inl e, h, g')
      | Draw idx g' \<Rightarrow>
          (case (flags_at h (series rm c), values_at h (series rv c), na c, series rm c) of
             (Some m, Some s, Some v, Some am) \<Rightarrow>
               (case alloc (Values (py_where s (map Not (set_true idx m)) v))
                       (store_write am (Flags (set_true idx m)) h) of
                  (a', h2) \<Rightarrow> (Inr (rv\<lparr>series := (series rv)(c \<mapsto> a')\<rparr>, rm), h2, g'))
           | _ \<Rightarrow> (Inl KeyError, h, g')))"
  unfolding knockout_column_store_def decide_def Let_def flags_at_def values_at_def
  by (auto split: option.splits sum.splits prod.splits array.splits)

lemma sim_write:
  assumes sim: "sim C h rv rm mdf mk" and c: "c \<in> C"
    and am: "series rm c = Some am"
    and al: "alloc (Values s') (store_write am (Flags m') h) = (a', h2)"
  shows "sim C h2 (rv\<lparr>series := (series rv)(c \<mapsto> a')\<rparr>) rm
           (mdf\<lparr>series := (series mdf)(c \<mapsto> s')\<rparr>) (mk\<lparr>series := (series mk)(c \<mapsto> m')\<rparr>)"
proof -
  from al have a': "a' = fresh h" and f2: "fresh h2 = Suc (fresh h)"
    and arr: "arrays h2 = (arrays h)(am \<mapsto> Flags m', fresh h \<mapsto> Values s')"
    by (auto simp: alloc_def store_write_def)
  from sim c am have amlt: "am < fresh h" by (auto simp: sim_def)
  have vals: "values_at h2 (if c'' = c then Some a' else series rv c'') =
              (if c'' = c then Some s' else values_at h (series rv c''))" if "c'' \<in> C" for c''
  proof (cases "c'' = c")
    case True
    then show ?thesis by (simp add: values_at_def arr a')
  next
    case False
    show ?thesis
    proof (cases "series rv c''")
      case None
      then show ?thesis using False by (simp add: values_at_def)
    next
      case (Some a)
      with sim that c am have "a < fresh h" "a \<noteq> am" by (auto simp: sim_def)
      then show ?thesis using False Some by (simp add: values_at_def arr)
    qed
  qed
  have flags: "flags_at h2 (series rm c'') =
              (if c'' = c then Some m' else flags_at h (series rm c''))" if "c'' \<in> C" for c''
  proof (cases "c'' = c")
    case True
    then show ?thesis using am amlt by (simp add: flags_at_def arr)
  next
    case False
    show ?thesis
    proof (cases "series rm c''")
      case None
      then show ?thesis using False by (simp add: flags_at_def)
    next
      case (Some a)
      with sim that c am False have "a < fresh h" "a \<noteq> am" by (auto simp: sim_def)
      then show ?thesis using False Some by (simp add: flags_at_def arr)
    qed
  qed
  have third: "a < fresh h2"
    if "c'' \<in> C" "(if c'' = c then Some a' else series rv c'') = Some a \<or> series rm c'' = Some a"
    for c'' a
    using that sim a' f2 by (auto simp: sim_def split: if_splits dest: less_SucI)
  have fourth: "(series rm c2 = Some a \<longrightarrow> c2 = c1) \<and> (if c2 = c then Some a' else series rv c2) \<noteq> Some a"
    if "c1 \<in> C" "c2 \<in> C" "series rm c1 = Some a" for c1 c2 a
  proof -
    from sim that have "a < fresh h" by (auto simp: sim_def)
    then have "a \<noteq> a'" using a' by simp
    then show ?thesis using sim that by (auto simp: sim_def)
  qed
  show ?thesis
    unfolding sim_def using sim vals flags third fourth
    by (simp add: sim_def)
qed

lemma knockout_column_sim:
  assumes sim: "sim C h rv rm mdf mk" and c: "c \<in> C"
    and st: "knockout_column_store choice ex mp na c (rv, rm, h, g) = (r, h', g')"
  shows "\<exists>rp. knockout_column choice ex mp na c (mdf, mk, g) = (rp, g') \<and>
           (case r of
              Inl e \<Rightarrow> rp = Inl e
            | Inr (rv', rm') \<Rightarrow> (\<exists>mdf' mk'. rp = Inr (mdf', mk') \<and> sim C h' rv' rm' mdf' mk'))"
proof -
  from sim have n: "n_rows mdf = n_rows rv" by (simp add: sim_def)
  from sim c have rd: "series mdf c = values_at h (series rv c)" "series mk c = flags_at h (series rm c)"
    by (simp_all add: sim_def)
  show ?thesis
  proof (cases "decide choice ex mp (n_rows rv) c g")
    case Skip
    then have "r = Inr (rv, rm)" "h' = h" "g' = g"
      using st by (simp_all add: knockout_column_store_decide)
    then show ?thesis
      using Skip sim by (simp add: knockout_column_decide n)
  next
    case (Fail e g1)
    then show ?thesis
      using st by (auto simp: knockout_column_decide knockout_column_store_decide n)
  next
    case (Draw idx g1)
    show ?thesis
    proof (cases "\<exists>m s v. flags_at h (series rm c) = Some m \<and> values_at h (series rv c) = Some s \<and> na c = Some v")
      case False
      then have "knockout_column_store choice ex mp na c (rv, rm, h, g) = (Inl KeyError, h, g1)"
        unfolding knockout_column_store_decide Draw
        by (auto split: option.splits)
      moreover have "knockout_column choice ex mp na c (mdf, mk, g) = (Inl KeyError, g1)"
        using False unfolding knockout_column_decide n Draw rd
        by (auto split: option.splits)
      ultimately show ?thesis using st by auto
    next
      case True
      then obtain m s v where look: "flags_at h (series rm c) = Some m"
        "values_at h (series rv c) = Some s" "na c = Some v" by blast
      from look(1) obtain am where am: "series rm c = Some am"
        by (auto simp: flags_at_def split: option.splits)
      let ?m' = "set_true idx m" 
      let ?s' = "py_where s (map Not (set_true idx m)) v"
      obtain a' h2 where al: "alloc (Values ?s') (store_write am (Flags ?m') h) = (a', h2)"
        by (cases "alloc (Values ?s') (store_write am (Flags ?m') h)")
      have "knockout_column_store choice ex mp na c (rv, rm, h, g)
              = (Inr (rv\<lparr>series := (series rv)(c \<mapsto> a')\<rparr>, rm), h2, g1)"
        unfolding knockout_column_store_decide Draw using look am al by simp
      with st have r: "r = Inr (rv\<lparr>series := (series rv)(c \<mapsto> a')\<rparr>, rm)" "h' = h2" "g' = g1"
        by simp_all
      have p: "knockout_column choice ex mp na c (mdf, mk, g)
              = (Inr (mdf\<lparr>series := (series mdf)(c \<mapsto> ?s')\<rparr>, mk\<lparr>series := (series mk)(c \<mapsto> ?m')\<rparr>), g1)"
        unfolding knockout_column_decide n Draw rd using look by simp
      from sim_write [OF sim c am al] show ?thesis
        using r p by simp
    qed
  qed
qed

lemma knockout_loop_sim:
  assumes "sim C h rv rm mdf mk" and "set cs \<subseteq> C"
    and "knockout_loop_store choice ex mp na cs (rv, rm, h, g) = (r, h', g')"
  shows "\<exists>rp. knockout_loop choice ex mp na cs (mdf, mk, g) = (rp, g') \<and>
           (case r of
              Inl e \<Rightarrow> rp = Inl e
            | Inr (rv', rm') \<Rightarrow> (\<exists>mdf' mk'. rp = Inr (mdf', mk') \<and> sim C h' rv' rm' mdf' mk'))"
  using assms
proof (induction cs arbitrary: h rv rm mdf mk g)
  case Nil
  then show ?case by auto
next
  case (Cons c cs)
  obtain r1 h1 g1 where st: "knockout_column_store choice ex mp na c (rv, rm, h, g) = (r1, h1, g1)"
    by (cases "knockout_column_store choice ex mp na c (rv, rm, h, g)")
  from Cons.prems(2) have c: "c \<in> C" and cs: "set cs \<subseteq> C" by simp_all
  from knockout_column_sim [OF Cons.prems(1) c st] obtain rp1 where
    p1: "knockout_column choice ex mp na c (mdf, mk, g) = (rp1, g1)"
    and rel: "case r1 of Inl e \<Rightarrow> rp1 = Inl e
              | Inr (rv', rm') \<Rightarrow> (\<exists>mdf' mk'. rp1 = Inr (mdf', mk') \<and> sim C h1 rv' rm' mdf' mk')"
    by blast
  show ?case
  proof (cases r1)
    case (Inl e)
    with rel have "rp1 = Inl e" by simp
    then show ?thesis using Inl st p1 Cons.prems(3) by auto
  next
    case (Inr fr)
    obtain rv1 rm1 where fr: "fr = (rv1, rm1)" by (cases fr)
    with rel Inr obtain mdf1 mk1 where rp1: "rp1 = Inr (mdf1, mk1)"
      and sim1: "sim C h1 rv1 rm1 mdf1 mk1" by auto
    have rest: "knockout_loop_store choice ex mp na cs (rv1, rm1, h1, g1) = (r, h', g')"
      using Cons.prems(3) st Inr fr by simp
    from Cons.IH [OF sim1 cs rest] show ?thesis
      using p1 rp1 by simp
  qed
qed

lemma zeros_arrays_inv:
  assumes "zeros_arrays cs n (dst, h) = (dst', h')" and "b \<le> fresh h"
    and "\<forall>c a. dst c = Some a \<longrightarrow>
           b \<le> a \<and> a < fresh h \<and> arrays h a = Some (Flags (replicate n False))"
    and "\<forall>c c' a. dst c = Some a \<longrightarrow> dst c' = Some a \<longrightarrow> c = c'"
  shows "(\<forall>c a. dst' c = Some a \<longrightarrow>
            b \<le> a \<and> a < fresh h' \<and> arrays h' a = Some (Flags (replicate n False))) \<and>
         (\<forall>c c' a. dst' c = Some a \<longrightarrow> dst' c' = Some a \<longrightarrow> c = c') \<and>
         (\<forall>c \<in> set cs. dst' c \<noteq> None)"
proof -
  have "(\<forall>c a. dst' c = Some a \<longrightarrow>
            b \<le> a \<and> a < fresh h' \<and> arrays h' a = Some (Flags (replicate n False))) \<and>
         (\<forall>c c' a. dst' c = Some a \<longrightarrow> dst' c' = Some a \<longrightarrow> c = c') \<and>
         (\<forall>c. c \<in> set cs \<or> dst c \<noteq> None \<longrightarrow> dst' c \<noteq> None)"
    using assms
  proof (induction cs arbitrary: dst h)
    case Nil
    then show ?case by simp
  next
    case (Cons c0 cs)
    let ?h1 = "\<lparr> arrays = (arrays h)(fresh h \<mapsto> Flags (replicate n False)), fresh = Suc (fresh h) \<rparr>"
    let ?d1 = "dst(c0 \<mapsto> fresh h)"
    have rest: "zeros_arrays cs n (?d1, ?h1) = (dst', h')"
      using Cons.prems(1) by (simp add: alloc_def)
    have f1: "b \<le> fresh ?h1" using Cons.prems(2) by simp
    have i1: "\<forall>c a. ?d1 c = Some a \<longrightarrow>
           b \<le> a \<and> a < fresh ?h1 \<and> arrays ?h1 a = Some (Flags (replicate n False))"
      using Cons.prems(2,3) by (auto dest: less_SucI)
    have i2: "\<forall>c c' a. ?d1 c = Some a \<longrightarrow> ?d1 c' = Some a \<longrightarrow> c = c'"
      using Cons.prems(3,4) by (auto split: if_splits)
    from Cons.IH [OF rest f1 i1 i2] show ?case by auto
  qed
  then show ?thesis by blast
qed

lemma copy_arrays_inv:
  assumes "copy_arrays cs src (dst, h) = (dst', h')" and "b \<le> fresh h"
    and "\<forall>c \<in> set cs. \<exists>a x. src c = Some a \<and> a < b \<and> arrays h a = Some x"
    and "\<forall>c a. dst c = Some a \<longrightarrow>
           b \<le> a \<and> a < fresh h \<and> (\<exists>a0. src c = Some a0 \<and> a0 < b \<and> arrays h a = arrays h a0)"
  shows "(\<forall>c a. dst' c = Some a \<longrightarrow>
            b \<le> a \<and> a < fresh h' \<and> (\<exists>a0. src c = Some a0 \<and> a0 < b \<and> arrays h' a = arrays h' a0)) \<and>
         (\<forall>c \<in> set cs. dst' c \<noteq> None)"
proof -
  have "(\<forall>c a. dst' c = Some a \<longrightarrow>
            b \<le> a \<and> a < fresh h' \<and> (\<exists>a0. src c = Some a0 \<and> a0 < b \<and> arrays h' a = arrays h' a0)) \<and>
         (\<forall>c. c \<in> set cs \<or> dst c \<noteq> None \<longrightarrow> dst' c \<noteq> None)"
    using assms
  proof (induction cs arbitrary: dst h)
    case Nil
    then show ?case by simp
  next
    case (Cons c0 cs)
    from Cons.prems(3) obtain a0 x where a0: "src c0 = Some a0" "a0 < b" "arrays h a0 = Some x"
      by auto
    let ?h1 = "\<lparr> arrays = (arrays h)(fresh h \<mapsto> x), fresh = Suc (fresh h) \<rparr>"
    let ?d1 = "dst(c0 \<mapsto> fresh h)"
    have rest: "copy_arrays cs src (?d1, ?h1) = (dst', h')"
      using Cons.prems(1) a0 by (simp add: alloc_def)
    have f1: "b \<le> fresh ?h1" using Cons.prems(2) by simp
    have s1: "\<forall>c \<in> set cs. \<exists>a x. src c = Some a \<and> a < b \<and> arrays ?h1 a = Some x"
    proof
      fix c assume "c \<in> set cs"
      with Cons.prems(3) obtain a y where ay: "src c = Some a" "a < b" "arrays h a = Some y"
        by auto
      from ay(2) Cons.prems(2) have "a \<noteq> fresh h" by simp
      then show "\<exists>a x. src c = Some a \<and> a < b \<and> arrays ?h1 a = Some x"
        using ay by auto
    qed
    have i1: "\<forall>c a. ?d1 c = Some a \<longrightarrow>
           b \<le> a \<and> a < fresh ?h1 \<and> (\<exists>a0. src c = Some a0 \<and> a0 < b \<and> arrays ?h1 a = arrays ?h1 a0)"
    proof (intro allI impI)
      fix c a assume e: "?d1 c = Some a"
      show "b \<le> a \<and> a < fresh ?h1 \<and> (\<exists>a0. src c = Some a0 \<and> a0 < b \<and> arrays ?h1 a = arrays ?h1 a0)"
      proof (cases "c = c0")
        case True
        with e have "a = fresh h" by simp
        then show ?thesis using True a0 Cons.prems(2) by auto
      next
        case False
        with e have "dst c = Some a" by simp
        with Cons.prems(4) obtain a1 where "b \<le> a" "a < fresh h" "src c = Some a1" "a1 < b"
          "arrays h a = arrays h a1" by blast
        then show ?thesis using Cons.prems(2) by auto
      qed
    qed
    from Cons.IH [OF rest f1 s1 i1] show ?case by auto
  qed
  then show ?thesis by blast
qed

lemma resolve_missing_pct_columns:
  "columns df' = columns df \<Longrightarrow> resolve_missing_pct df' mp = resolve_missing_pct df mp"
  unfolding resolve_missing_pct_def Let_def by (cases mp) (auto split: sum.splits)

lemma na_values_columns:
  "columns df' = columns df \<Longrightarrow> dtypes df' = dtypes df \<Longrightarrow> na_values df' na = na_values df na"
  unfolding na_values_def Let_def by (cases na) auto

lemma knockout_values_store_refines:
  assumes stored: "\<forall>c \<in> set (columns df).
                     \<exists>a s. series df c = Some a \<and> a < fresh h \<and> arrays h a = Some (Values s)"
    and res: "knockout_values_store choice df mp na ex (h, g) = (r, h', g')"
  shows "\<exists>rp. knockout_values choice (read_values h df) mp na ex g = (rp, g') \<and>
           (case r of
              Inl e \<Rightarrow> rp = Inl e
            | Inr (rv, rm) \<Rightarrow>
                (\<exists>mdf mk. rp = Inr (mdf, mk) \<and>
                   (\<forall>c \<in> set (columns df).
                      series mdf c = values_at h' (series rv c) \<and>
                      series mk c = flags_at h' (series rm c))))"
proof -
  let ?dfp = "read_values h df"
  have cols: "columns ?dfp = columns df" "dtypes ?dfp = dtypes df"
    by (simp_all add: read_values_def)
  note rs = resolve_missing_pct_columns [OF cols(1), of mp]
  show ?thesis
  proof (cases "\<exists>rates. (mp = Val PNone \<or> (case mp of Val v \<Rightarrow> float_like v | Dict d \<Rightarrow> True)) \<and>
                 resolve_missing_pct df mp = Inr rates")
  case False
  then have "\<exists>e. r = Inl e \<and> h' = h \<and> g' = g \<and>
               knockout_values choice ?dfp mp na ex g = (Inl e, g)"
    using res unfolding knockout_values_store_def knockout_values_def rs
    by (auto split: if_splits sum.splits)
  then show ?thesis by auto
next
  case True
  then obtain rates where ok: "mp = Val PNone \<or> (case mp of Val v \<Rightarrow> float_like v | Dict d \<Rightarrow> True)"
    and rates: "resolve_missing_pct df mp = Inr rates" by blast
  let ?C = "set (columns df)"
  obtain dst h1 where c1: "copy_arrays (columns df) (series df) (Map.empty, h) = (dst, h1)"
    by (cases "copy_arrays (columns df) (series df) (Map.empty, h)")
  obtain dst2 h2 where c2: "zeros_arrays (columns df) (n_rows df) (Map.empty, h1) = (dst2, h2)"
    by (cases "zeros_arrays (columns df) (n_rows df) (Map.empty, h1)")
  let ?rv0 = "df\<lparr>series := dst\<rparr>"
  let ?rm0 = "\<lparr> n_rows = n_rows df, columns = columns df,
                 dtypes = (\<lambda>c. if c \<in> set (columns df) then Some ''bool'' else None),
                 series = dst2 \<rparr>"
  have loop: "knockout_loop_store choice (exclude_set ex) rates (na_values df na) (columns df)
                (?rv0, ?rm0, h2, g) = (r, h', g')"
    using res ok rates c1 c2
    unfolding knockout_values_store_def copy_frame_def zeros_mask_store_def by auto
  have src: "\<forall>c \<in> set (columns df). \<exists>a x. series df c = Some a \<and> a < fresh h \<and> arrays h a = Some x"
    using stored by blast
  from copy_arrays_inv [OF c1 order_refl src]
  have d1: "\<forall>c a. dst c = Some a \<longrightarrow>
            fresh h \<le> a \<and> a < fresh h1 \<and>
            (\<exists>a0. series df c = Some a0 \<and> a0 < fresh h \<and> arrays h1 a = arrays h1 a0)"
    and d1def: "\<forall>c \<in> ?C. dst c \<noteq> None" by simp_all
  have e: "above (fresh h) Map.empty" by (simp add: above_def)
  from copy_arrays_kept [OF c1 order_refl e] have k1: "kept (fresh h) h h1" by simp
  then have f1: "fresh h \<le> fresh h1" by (simp add: kept_def)
  from zeros_arrays_inv [OF c2 order_refl]
  have d2: "\<forall>c a. dst2 c = Some a \<longrightarrow>
            fresh h1 \<le> a \<and> a < fresh h2 \<and> arrays h2 a = Some (Flags (replicate (n_rows df) False))"
    and inj2: "\<forall>c c' a. dst2 c = Some a \<longrightarrow> dst2 c' = Some a \<longrightarrow> c = c'"
    and d2def: "\<forall>c \<in> ?C. dst2 c \<noteq> None" by simp_all
  have e1: "above (fresh h1) Map.empty" by (simp add: above_def)
  from zeros_arrays_kept [OF c2 order_refl e1] have k2: "kept (fresh h1) h1 h2" by simp
  then have f2: "fresh h1 \<le> fresh h2" by (simp add: kept_def)
  have rdv: "values_at h2 (dst c) = values_at h (series df c)" if c: "c \<in> ?C" for c
  proof -
    from d1def c obtain a where a: "dst c = Some a" by auto
    with d1 obtain a0 where a0: "fresh h \<le> a" "a < fresh h1" "series df c = Some a0" "a0 < fresh h"
      "arrays h1 a = arrays h1 a0" by blast
    have "arrays h2 a = arrays h1 a" using k2 a0(2) by (simp add: kept_def)
    moreover have "arrays h1 a0 = arrays h a0" using k1 a0(4) by (simp add: kept_def)
    ultimately show ?thesis using a a0 by (simp add: values_at_def)
  qed
  have rdf: "flags_at h2 (dst2 c) = Some (replicate (n_rows df) False)" if c: "c \<in> ?C" for c
  proof -
    from d2def c obtain a where a: "dst2 c = Some a" by auto
    with d2 have "arrays h2 a = Some (Flags (replicate (n_rows df) False))" by blast
    then show ?thesis using a by (simp add: flags_at_def)
  qed
  have sim0: "sim ?C h2 ?rv0 ?rm0 ?dfp (zeros_mask ?dfp)"
    unfolding sim_def
  proof (intro conjI ballI allI impI)
    show "n_rows ?dfp = n_rows ?rv0" by (simp add: read_values_def)
  next
    fix c assume "c \<in> ?C"
    then show "series ?dfp c = values_at h2 (series ?rv0 c)"
      using rdv by (simp add: read_values_def)
  next
    fix c assume "c \<in> ?C"
    then show "series (zeros_mask ?dfp) c = flags_at h2 (series ?rm0 c)"
      using rdf by (simp add: read_values_def zeros_mask_def)
  next
    fix c a assume "c \<in> ?C" "series ?rv0 c = Some a \<or> series ?rm0 c = Some a"
    then show "a < fresh h2" using d1 d2 f2 by fastforce
  next
    fix c c' a assume "series ?rm0 c = Some a" "series ?rm0 c' = Some a"
    then show "c' = c" using inj2 by simp
  next
    fix c c' a assume "series ?rm0 c = Some a"
    then have "fresh h1 \<le> a" using d2 by simp
    then show "series ?rv0 c' \<noteq> Some a" using d1 by fastforce
  qed
  from knockout_loop_sim [OF sim0 subset_refl loop] obtain rp where
    p: "knockout_loop choice (exclude_set ex) rates (na_values df na) (columns df)
          (?dfp, zeros_mask ?dfp, g) = (rp, g')"
    and rel: "case r of Inl e \<Rightarrow> rp = Inl e
              | Inr (rv', rm') \<Rightarrow> (\<exists>mdf' mk'. rp = Inr (mdf', mk') \<and> sim ?C h' rv' rm' mdf' mk')"
    by blast
  have "knockout_values choice ?dfp mp na ex g = (rp, g')"
    using p ok rates unfolding knockout_values_def rs na_values_columns [OF cols] cols
    by auto
  moreover have "case r of
              Inl e \<Rightarrow> rp = Inl e
            | Inr (rv, rm) \<Rightarrow>
                (\<exists>mdf mk. rp = Inr (mdf, mk) \<and>
                   (\<forall>c \<in> ?C. series mdf c = values_at h' (series rv c) \<and>
                      series mk c = flags_at h' (series rm c)))"
    using rel by (auto simp: sim_def split: sum.splits)
  ultimately show ?thesis by blast
qed
qed

section \<open>Claims\<close>



text \<open>
  C2, at an input where it fails. With all rows knocked out and a sentinel specification
  that overrides the integer and the string category, the integer column \<open>a\<close> still holds
  the default \<open>-1\<close> in every masked cell: line 37 looks the override up by column name.
  What holds of every result is \<open>knockout_values_cells\<close>: a cell whose mask is False is
  the input's, and a cell whose mask is True holds the sentinel that lines 34 to 38
  resolved for the column.
\<close>

theorem na_value_integer_override_ignored:
  "result_column (knockout_values rotate_choice example_table (Val (PFloat 1))
       (Dict [(''integer'', PInt 0), (''string'', PStr ''missing'')]) ExNone (0::nat)) ''a''
   = Inr (Some [PInt (- 1), PInt (- 1), PInt (- 1), PInt (- 1), PInt (- 1)],
          Some [True, True, True, True, True])"
  by code_simp


text \<open>
  C3, at the input the claim names. With \<open>na_value = {"floating": -999.0}\<close> and rate 0.5
  on a floating column, the masked cell holds NaN and not the override: the entries of
  \<open>na_value\<close> are looked up under the column's name \<open>x\<close>, not under its type category.
\<close>

theorem na_value_floating_override_ignored:
  "result_column (knockout_values rotate_choice float_table (Val (PFloat (1 / 2)))
       (Dict [(''floating'', PFloat (- 999))]) ExNone (0::nat)) ''x''
   = Inr (Some [PNaN, PFloat (5 / 2)], Some [True, False])"
  by code_simp












text \<open>
  C6. Whenever the call returns, a column listed in \<open>exclude\<close> has an all-False mask column
  and its cells are the input's, whatever \<open>missing_pct\<close> is, also a mapping that names
  the column.
\<close>

theorem knockout_values_excluded:
  assumes res: "knockout_values choice df mp na ex g = (Inr (mdf, mk), g')"
    and ex: "c \<in> exclude_set ex" and c: "c \<in> set (columns df)"
  shows "series mk c = Some (replicate (n_rows df) False) \<and> series mdf c = series df c"
proof -
  from knockout_values_Inr [OF res] obtain rates where
    loop: "knockout_loop choice (exclude_set ex) rates (na_values df na) (columns df)
             (df, zeros_mask df, g) = (Inr (mdf, mk), g')" by blast
  from knockout_loop_skip [OF loop, of c] ex
  have "series mdf c = series df c" "series mk c = series (zeros_mask df) c" by simp_all
  then show ?thesis using c by (simp add: zeros_mask_def)
qed

theorem knockout_values_excluded_witness:
  "result_column (knockout_values rotate_choice example_table
        (Dict [(''a'', PFloat 1), (''b'', PFloat (1 / 2))]) (Val PNone) (ExList [''a'', ''zz'']) (0::nat)) ''b''
     = Inr (Some [PStr ''NA'', PStr ''NA'', PStr ''z'', PStr ''w'', PStr ''v''],
            Some [True, True, False, False, False]) \<and>
   (\<exists>mdf mk g'.
      knockout_values rotate_choice example_table
        (Dict [(''a'', PFloat 1), (''b'', PFloat (1 / 2))]) (Val PNone) (ExList [''a'', ''zz'']) (0::nat)
        = (Inr (mdf, mk), g') \<and>
      series mk ''a'' = Some [False, False, False, False, False] \<and>
      series mdf ''a'' = Some [PInt 1, PInt 2, PInt 3, PInt 4, PInt 5])"
proof -
  let ?r = "knockout_values rotate_choice example_table
        (Dict [(''a'', PFloat 1), (''b'', PFloat (1 / 2))]) (Val PNone) (ExList [''a'', ''zz'']) (0::nat)"
  have b: "result_column ?r ''b''
     = Inr (Some [PStr ''NA'', PStr ''NA'', PStr ''z'', PStr ''w'', PStr ''v''],
            Some [True, True, False, False, False])"
    by code_simp
  then obtain mdf mk g' where r: "?r = (Inr (mdf, mk), g')"
    by (cases ?r) (auto simp: result_column_def split: sum.splits)
  have "replicate (n_rows example_table) False = [False, False, False, False, False]"
    by code_simp
  moreover have "series example_table ''a'' = Some [PInt 1, PInt 2, PInt 3, PInt 4, PInt 5]"
    by (simp add: example_table_def)
  moreover have "''a'' \<in> exclude_set (ExList [''a'', ''zz''])" "''a'' \<in> set (columns example_table)"
    by (simp_all add: example_table_def)
  ultimately show ?thesis
    using knockout_values_excluded [OF r] b r by simp
qed


text \<open>
  C7. On a store that holds the input's arrays, the call leaves every array of the input
  as it was, whether it returns or raises. The arrays of the returned masked table and of
  the returned mask are new: none of them is an array of the input, so overwriting an
  array of either output afterwards leaves every array of the input unchanged. By
  \<open>knockout_values_store_refines\<close> the call on the store returns the tables that
  \<open>knockout_values\<close> returns.
\<close>

theorem knockout_values_store_input_unchanged:
  assumes inp: "\<forall>c b. series df c = Some b \<longrightarrow> b < fresh h"
    and res: "knockout_values_store choice df mp na ex (h, g) = (r, h', g')"
  shows "(\<forall>c b. series df c = Some b \<longrightarrow> arrays h' b = arrays h b) \<and>
         (\<forall>mdf mk c a. r = Inr (mdf, mk) \<longrightarrow> series mdf c = Some a \<or> series mk c = Some a \<longrightarrow>
            fresh h \<le> a \<and>
            (\<forall>c' b x. series df c' = Some b \<longrightarrow>
               a \<noteq> b \<and> arrays (store_write a x h') b = arrays h b))"
proof -
  from knockout_values_store_kept [OF res]
  have k: "kept (fresh h) h h'"
    and ab: "\<forall>mdf mk. r = Inr (mdf, mk) \<longrightarrow>
            above (fresh h) (series mdf) \<and> above (fresh h) (series mk)" by blast+
  have old: "arrays h' b = arrays h b" if "series df c = Some b" for c b
    using that inp k by (auto simp: kept_def)
  have new: "fresh h \<le> a" if "r = Inr (mdf, mk)" "series mdf c = Some a \<or> series mk c = Some a"
    for mdf mk c a
    using that ab by (auto simp: above_def)
  have "a \<noteq> b \<and> arrays (store_write a x h') b = arrays h b"
    if "r = Inr (mdf, mk)" "series mdf c = Some a \<or> series mk c = Some a" "series df c' = Some b"
    for mdf mk c a c' b x
  proof -
    from new [OF that(1,2)] that(3) inp have "a \<noteq> b" by fastforce
    then show ?thesis using old [OF that(3)] by (simp add: store_write_def)
  qed
  then show ?thesis using old new by blast
qed

theorem knockout_values_store_input_unchanged_witness:
  "\<exists>r h' g'.
      knockout_values_store rotate_choice example_refs (Val (PFloat (2 / 5))) (Val PNone) ExNone
        (example_store, 0::nat) = (r, h', g') \<and>
      arrays h' 0 = Some (Values [PInt 1, PInt 2, PInt 3, PInt 4, PInt 5]) \<and>
      arrays h' 1 = Some (Values [PStr ''x'', PStr ''y'', PStr ''z'', PStr ''w'', PStr ''v''])"
proof -
  let ?X = "knockout_values_store rotate_choice example_refs (Val (PFloat (2 / 5))) (Val PNone) ExNone
        (example_store, 0::nat)"
  have res: "?X = (fst ?X, fst (snd ?X), snd (snd ?X))" by simp
  have inp: "\<forall>c b. series example_refs c = Some b \<longrightarrow> b < fresh example_store"
    by (auto simp: example_refs_def example_store_def split: if_splits)
  have a: "series example_refs ''a'' = Some 0" and b: "series example_refs ''b'' = Some 1"
    by (simp_all add: example_refs_def)
  from knockout_values_store_input_unchanged [OF inp res] a b
  have "arrays (fst (snd ?X)) 0 = arrays example_store 0"
    and "arrays (fst (snd ?X)) 1 = arrays example_store 1" by blast+
  then have "arrays (fst (snd ?X)) 0 = Some (Values [PInt 1, PInt 2, PInt 3, PInt 4, PInt 5])"
    and "arrays (fst (snd ?X)) 1 = Some (Values [PStr ''x'', PStr ''y'', PStr ''z'', PStr ''w'', PStr ''v''])"
    by (simp_all add: example_store_def)
  then show ?thesis using res by blast
qed

text \<open>
  C8. When \<open>missing_pct\<close> is a mapping and the call returns, a column that is not a key of
  the mapping has an all-False mask column and its cells are the input's.
\<close>

theorem knockout_values_unnamed:
  assumes res: "knockout_values choice df (Dict d) na ex g = (Inr (mdf, mk), g')"
    and un: "c \<notin> fst ` set d" and c: "c \<in> set (columns df)"
  shows "series mk c = Some (replicate (n_rows df) False) \<and> series mdf c = series df c"
proof -
  from knockout_values_Inr [OF res] obtain rates where
    rates: "resolve_missing_pct df (Dict d) = Inr rates"
    and loop: "knockout_loop choice (exclude_set ex) rates (na_values df na) (columns df)
             (df, zeros_mask df, g) = (Inr (mdf, mk), g')" by blast
  from rates have "missing_pct_items d (\<lambda>c. if c \<in> set (columns df) then Some PNone else None) = Inr rates"
    by (simp add: resolve_missing_pct_def)
  from missing_pct_items_other [OF this un] c have "rates c = Some PNone" by simp
  with knockout_loop_skip [OF loop, of c]
  have "series mdf c = series df c" "series mk c = series (zeros_mask df) c" by simp_all
  then show ?thesis using c by (simp add: zeros_mask_def)
qed

theorem knockout_values_unnamed_witness:
  "\<exists>mdf mk g'.
      knockout_values rotate_choice example_table (Dict [(''a'', PFloat (2 / 5))]) (Val PNone) ExNone (0::nat)
        = (Inr (mdf, mk), g') \<and>
      series mk ''b'' = Some [False, False, False, False, False] \<and>
      series mdf ''b'' = Some [PStr ''x'', PStr ''y'', PStr ''z'', PStr ''w'', PStr ''v'']"
proof -
  let ?r = "knockout_values rotate_choice example_table (Dict [(''a'', PFloat (2 / 5))]) (Val PNone) ExNone (0::nat)"
  have "result_column ?r ''a''
     = Inr (Some [PInt (- 1), PInt (- 1), PInt 3, PInt 4, PInt 5], Some [True, True, False, False, False])"
    by code_simp
  then obtain mdf mk g' where r: "?r = (Inr (mdf, mk), g')"
    by (cases ?r) (auto simp: result_column_def split: sum.splits)
  have "replicate (n_rows example_table) False = [False, False, False, False, False]"
    by code_simp
  moreover have "series example_table ''b'' = Some [PStr ''x'', PStr ''y'', PStr ''z'', PStr ''w'', PStr ''v'']"
    by (simp add: example_table_def)
  moreover have "''b'' \<notin> fst ` set [(''a'', PFloat (2 / 5))]" "''b'' \<in> set (columns example_table)"
    by (simp_all add: example_table_def)
  ultimately show ?thesis
    using knockout_values_unnamed [OF r] r by simp
qed





text \<open>
  C10. A \<open>na_value\<close> that is not a dict is ignored: the call gives the result it gives
  for \<open>na_value = None\<close>, it returns for a well-formed table and a valid \<open>missing_pct\<close>,
  and every masked cell holds the default of the column's dtype: \<open>-1\<close> for an \<open>int\<close>
  dtype, NaN for a \<open>float\<close> dtype, the string \<open>NA\<close> otherwise.
\<close>

theorem knockout_values_scalar_na_value:
  assumes wf: "wf_frame df" and valid: "valid_missing_pct mp"
  shows "knockout_values choice df mp (Val v) ex g = knockout_values choice df mp (Val PNone) ex g \<and>
         (\<exists>mdf mk g'.
            knockout_values choice df mp (Val v) ex g = (Inr (mdf, mk), g') \<and>
            (\<forall>c \<in> set (columns df).
               \<exists>t m s'. dtypes df c = Some t \<and> series mk c = Some m \<and> series mdf c = Some s' \<and>
                 (\<forall>i < n_rows df. m ! i \<longrightarrow>
                    s' ! i = (if int_type t then PInt (- 1)
                              else if float_type t then PNaN else PStr ''NA''))))"
proof -
  have same: "na_values df (Val v) = na_values df (Val PNone)"
    by (simp add: na_values_def)
  have eq: "knockout_values choice df mp (Val v) ex g = knockout_values choice df mp (Val PNone) ex g"
    unfolding knockout_values_def same ..
  from knockout_values_returns [OF wf valid, of choice "Val v" ex g] obtain mdf mk g' where
    res: "knockout_values choice df mp (Val v) ex g = (Inr (mdf, mk), g')" by blast
  have "\<exists>t m s'. dtypes df c = Some t \<and> series mk c = Some m \<and> series mdf c = Some s' \<and>
          (\<forall>i < n_rows df. m ! i \<longrightarrow>
             s' ! i = (if int_type t then PInt (- 1) else if float_type t then PNaN else PStr ''NA''))"
    if c: "c \<in> set (columns df)" for c
  proof -
    from wf c obtain t where t: "dtypes df c = Some t" by (auto simp: wf_frame_def)
    then have na: "na_values df (Val v) c = Some (default_na t)"
      using c by (simp add: na_values_def)
    from knockout_values_cells [OF res wf c] na obtain s m s' where
      "series mk c = Some m" "series mdf c = Some s'"
      "\<forall>i < n_rows df. s' ! i = (if m ! i then default_na t else s ! i)"
      by auto
    then show ?thesis using t by (auto simp: default_na_def)
  qed
  then show ?thesis using eq res by blast
qed

theorem knockout_values_scalar_na_value_witness:
  "result_column (knockout_values rotate_choice example_table (Val (PFloat 1)) (Val (PInt 7)) ExNone (0::nat)) ''a''
     = Inr (Some [PInt (- 1), PInt (- 1), PInt (- 1), PInt (- 1), PInt (- 1)],
            Some [True, True, True, True, True]) \<and>
   knockout_values rotate_choice example_table (Val (PFloat 1)) (Val (PInt 7)) ExNone (0::nat)
     = knockout_values rotate_choice example_table (Val (PFloat 1)) (Val PNone) ExNone 0"
proof -
  have v: "valid_missing_pct (Val (PFloat 1))" by simp
  have "result_column (knockout_values rotate_choice example_table (Val (PFloat 1)) (Val (PInt 7)) ExNone (0::nat)) ''a''
     = Inr (Some [PInt (- 1), PInt (- 1), PInt (- 1), PInt (- 1), PInt (- 1)],
            Some [True, True, True, True, True])"
    by code_simp
  then show ?thesis
    using knockout_values_scalar_na_value [OF wf_example_table v, of rotate_choice "PInt 7" ExNone 0]
    by simp
qed

end
